theory Spec2Isabelle
  imports Main "HOL-Library.Word"
begin

section \<open>Parallel SMT: the portfolio loop of smt\_parallel.cpp\<close>

text \<open>
  The theory embeds \<^verbatim>\<open>smt::parallel::operator()\<close> and its three closures
  (\<^verbatim>\<open>cube\<close>, \<^verbatim>\<open>collect_units\<close>, \<^verbatim>\<open>worker_thread\<close>).

  Collaborators. The classes the function calls into (\<^verbatim>\<open>smt::context\<close>,
  \<^verbatim>\<open>smt::lookahead\<close>, \<^verbatim>\<open>ast_translation\<close>, \<^verbatim>\<open>model\<close>, \<^verbatim>\<open>statistics\<close>) are not part of
  the source files. Their operations are the fields of the record \<open>collab\<close>: every
  definition takes them as a parameter and every theorem holds for all of them. The
  solver and the lookahead may throw inside a worker's \<^verbatim>\<open>try\<close> block, a \<^verbatim>\<open>z3_error\<close> or
  another \<^verbatim>\<open>z3_exception\<close>; the calls outside the \<^verbatim>\<open>try\<close> block are taken to return, and
  the model starts when \<^verbatim>\<open>ctx.internalize_assertions()\<close> has returned.

  Threads. During a round \<^verbatim>\<open>num_rounds\<close>, \<^verbatim>\<open>max_conflicts\<close> and \<^verbatim>\<open>pasms\<close> are only read,
  and each worker owns its context. The workers write shared variables in the
  critical section guarded by \<^verbatim>\<open>mux\<close>, in the cancellation loop of the winner and in
  the two catch handlers, which take no lock. A round is modelled as the worker
  bodies run one after the other in some order, the schedule of the round, with
  each critical section and each handler one step. The schedules are a parameter,
  one list of worker indices per round, and the theorems hold for every schedule.
  The list of schedules is also the fuel of the round loop, which has no bound of
  its own: a run that uses up the list without setting \<^verbatim>\<open>done\<close> is \<open>None\<close>.

  Integers. \<^verbatim>\<open>unsigned\<close> is 32 bits wide. Positions in vectors and the number of
  threads as a loop bound are natural numbers.
\<close>

subsection \<open>Data\<close>

type_synonym unsigned = "32 word"

definition UINT_MAX :: unsigned where
  "UINT_MAX = 4294967295"

datatype lbool = l_false | l_undef | l_true

datatype par_exception_kind = DEFAULT_EX | ERROR_EX

text \<open>Expressions. \<open>Not\<close> is \<^verbatim>\<open>ast_manager::mk_not\<close>.\<close>

datatype expr = Atom nat | Not expr | And "expr list"

datatype literal = Literal (lit_var: nat) (lit_sign: bool)

text \<open>The \<^verbatim>\<open>ast_manager\<close> an expression lives in: \<^verbatim>\<open>ctx.m\<close> or \<^verbatim>\<open>*pms[i]\<close>.\<close>

datatype arena = Primary | Worker nat

text \<open>
  What the collaborators throw inside a worker: a \<^verbatim>\<open>z3_error\<close> with its error code,
  or any other \<^verbatim>\<open>z3_exception\<close> with its message. \<^verbatim>\<open>default_exception\<close>, which the
  call itself throws, is a \<^verbatim>\<open>z3_exception\<close> with that message.
\<close>

datatype z3_exn = z3_error unsigned | z3_exception string

abbreviation default_exception :: "string \<Rightarrow> z3_exn" where
  "default_exception msg \<equiv> z3_exception msg"

datatype model = Model "(nat \<times> bool) list"

type_synonym statistics = "(string \<times> nat) list"

record ast_manager =
  limit_cancel :: bool

text \<open>The members of \<^verbatim>\<open>smt::context\<close> that the function reads or writes.\<close>

record smt_context =
  m_threads :: unsigned
  m_threads_max_conflicts :: unsigned
  m_max_conflicts :: unsigned
  m_random_seed :: unsigned
  m_num_conflicts :: unsigned
  m_assigned_literals :: "literal list"
  m_bool_var2expr :: "expr list"
  m_asserted_formulas :: "expr list"
  m_unsat_core :: "expr list"
  m_model :: "model option"
  m_aux_stats :: statistics

text \<open>
  The collaborators. \<open>check\<close> and \<open>pop_to_base_lvl\<close> return the context as they
  leave it; \<open>check\<close> and \<open>lh_choose\<close> (\<^verbatim>\<open>lookahead lh(ctx); lh.choose()\<close>) may
  throw. \<open>translate from to\<close> is \<^verbatim>\<open>ast_translation tr(from, to)\<close> applied to an
  expression.
\<close>

record collab =
  copy_context :: "smt_context \<Rightarrow> arena \<Rightarrow> smt_context"
  translate :: "arena \<Rightarrow> arena \<Rightarrow> expr \<Rightarrow> expr"
  translate_model :: "arena \<Rightarrow> arena \<Rightarrow> model \<Rightarrow> model"
  lh_choose :: "smt_context \<Rightarrow> z3_exn + expr option"
  check :: "smt_context \<Rightarrow> expr list \<Rightarrow> smt_context \<times> (z3_exn + lbool)"
  pop_to_base_lvl :: "smt_context \<Rightarrow> smt_context"
  get_model :: "smt_context \<Rightarrow> model option"
  collect_statistics :: "smt_context \<Rightarrow> statistics \<Rightarrow> statistics"

text \<open>
  The variables of \<^verbatim>\<open>operator()\<close> that its closures capture by reference, and the
  primary context \<open>ctx\<close>. \<open>done_flag\<close> is \<^verbatim>\<open>done\<close>.
\<close>

record par_state =
  ctx :: smt_context
  pms :: "ast_manager list"
  pctxs :: "smt_context list"
  pasms :: "expr list list"
  result :: lbool
  num_threads :: nat
  finished_id :: unsigned
  ex_msg :: string
  ex_kind :: par_exception_kind
  error_code :: unsigned
  done_flag :: bool
  num_rounds :: unsigned
  max_conflicts :: unsigned
  unit_set :: "expr set"
  unit_trail :: "expr list"
  unit_lim :: "nat list"

subsection \<open>Helpers of the context\<close>

text \<open>
  Modelled from the spec: \<^verbatim>\<open>smt::context::assert_expr\<close> is not in the source files;
  the fact is "asserted into that worker's private state", here the end of the
  context's list of asserted formulas.
\<close>

definition assert_expr :: "expr \<Rightarrow> smt_context \<Rightarrow> smt_context" where
  "assert_expr e c = c\<lparr>m_asserted_formulas := m_asserted_formulas c @ [e]\<rparr>"

text \<open>
  Modelled from the spec: \<^verbatim>\<open>mk_not\<close> and \<^verbatim>\<open>mk_and\<close> of \<^verbatim>\<open>ast_util.h\<close> are not in the
  source files; the spec calls their composition "the negation of the conjunction
  of that core".
\<close>

definition mk_and :: "expr list \<Rightarrow> expr" where
  "mk_and es = And es"

definition mk_not :: "expr \<Rightarrow> expr" where
  "mk_not e = Not e"

text \<open>
  \<^verbatim>\<open>pctx.unsat_core().contains(c)\<close>: \<^verbatim>\<open>c\<close> is a null reference when no cube was chosen,
  and a core holds no null pointer.
\<close>

definition core_contains :: "expr list \<Rightarrow> expr option \<Rightarrow> bool" where
  "core_contains core c = (case c of None \<Rightarrow> False | Some e \<Rightarrow> e \<in> set core)"

definition set_pctx :: "nat \<Rightarrow> smt_context \<Rightarrow> par_state \<Rightarrow> par_state" where
  "set_pctx i pctx s = s\<lparr>pctxs := (pctxs s)[i := pctx]\<rparr>"

subsection \<open>Set-up (lines 34 to 70)\<close>

text \<open>
  \<^verbatim>\<open>flet<unsigned> _nt(ctx.m_fparams.m_threads, 1)\<close> sets the primary context's thread
  count to 1 for the duration of the call, so every copy is single-threaded.
  The translation of the assumptions is \<^verbatim>\<open>ast_translation tr(*new_m, m)\<close>, as the
  source writes it.
\<close>

definition init_state :: "collab \<Rightarrow> smt_context \<Rightarrow> expr list \<Rightarrow> par_state" where
  "init_state ops c asms =
     (let n = unat (m_threads c); c1 = c\<lparr>m_threads := 1\<rparr> in
      \<lparr> ctx = c1,
        pms = replicate n \<lparr>limit_cancel = False\<rparr>,
        pctxs = map (\<lambda>i. (copy_context ops c1 (Worker i))
                      \<lparr>m_random_seed := of_nat i + m_random_seed c1\<rparr>) [0..<n],
        pasms = map (\<lambda>i. map (translate ops (Worker i) Primary) asms) [0..<n],
        result = l_undef,
        num_threads = n,
        finished_id = UINT_MAX,
        ex_msg = [],
        ex_kind = DEFAULT_EX,
        error_code = 0,
        done_flag = False,
        num_rounds = 0,
        max_conflicts = m_threads_max_conflicts c1,
        unit_set = {},
        unit_trail = [],
        unit_lim = replicate n 0 \<rparr>)"

subsection \<open>cube (lines 61 to 65)\<close>

definition cube :: "collab \<Rightarrow> smt_context \<Rightarrow> expr list \<Rightarrow> z3_exn + (expr list \<times> expr option)" where
  "cube ops c lasms =
     (case lh_choose ops c of
        Inl ex \<Rightarrow> Inl ex
      | Inr None \<Rightarrow> Inr (lasms, None)
      | Inr (Some e) \<Rightarrow> Inr (lasms @ [e], Some e))"

subsection \<open>collect\_units (lines 72 to 101)\<close>

definition lit2expr :: "smt_context \<Rightarrow> literal \<Rightarrow> expr" where
  "lit2expr pctx lit =
     (let e = m_bool_var2expr pctx ! lit_var lit in if lit_sign lit then Not e else e)"

text \<open>Lines 83 to 86: the fact joins the trail only when the set does not hold it.\<close>

definition add_unit :: "expr set \<times> expr list \<Rightarrow> expr \<Rightarrow> expr set \<times> expr list" where
  "add_unit st ce =
     (if ce \<notin> fst st then (insert ce (fst st), snd st @ [ce]) else st)"

text \<open>
  Lines 77 to 82 for worker \<open>i\<close>: the literals of its log from index \<^verbatim>\<open>unit_lim[i]\<close>
  on, as expressions of the primary manager. The context is the popped one.
\<close>

definition new_units :: "collab \<Rightarrow> nat \<Rightarrow> nat \<Rightarrow> smt_context \<Rightarrow> expr list" where
  "new_units ops i lim pctx =
     map (\<lambda>lit. translate ops (Worker i) Primary (lit2expr pctx lit))
       (drop lim (m_assigned_literals pctx))"

text \<open>Lines 74 to 87: one pass of the first loop.\<close>

definition collect_worker :: "collab \<Rightarrow> par_state \<Rightarrow> nat \<Rightarrow> par_state" where
  "collect_worker ops s i =
     (let pctx = pop_to_base_lvl ops (pctxs s ! i);
          st = foldl add_unit (unit_set s, unit_trail s) (new_units ops i (unit_lim s ! i) pctx)
      in s\<lparr>pctxs := (pctxs s)[i := pctx], unit_set := fst st, unit_trail := snd st\<rparr>)"

text \<open>Lines 92 to 99: one pass of the second loop; \<open>sz\<close> is the length of the trail.\<close>

definition assert_units :: "collab \<Rightarrow> nat \<Rightarrow> par_state \<Rightarrow> nat \<Rightarrow> par_state" where
  "assert_units ops sz s i =
     (let dsts = map (translate ops Primary (Worker i))
                   (drop (unit_lim s ! i) (take sz (unit_trail s)));
          pctx = foldl (\<lambda>c dst. assert_expr dst c) (pctxs s ! i) dsts
      in s\<lparr>pctxs := (pctxs s)[i := pctx], unit_lim := (unit_lim s)[i := sz]\<rparr>)"

definition collect_units :: "collab \<Rightarrow> par_state \<Rightarrow> par_state" where
  "collect_units ops s =
     (let s1 = foldl (collect_worker ops) s [0..<num_threads s];
          sz = length (unit_trail s1)
      in foldl (assert_units ops sz) s1 [0..<num_threads s])"

subsection \<open>worker\_thread (lines 105 to 158)\<close>

text \<open>Line 112: the worker's solver gets the budget of the round.\<close>

definition worker_limit :: "par_state \<Rightarrow> nat \<Rightarrow> smt_context" where
  "worker_limit s i = (pctxs s ! i)\<lparr>m_max_conflicts := max_conflicts s\<rparr>"

text \<open>
  Lines 109 to 115: the local copy \<^verbatim>\<open>lasms\<close> of the worker's assumptions and the cube
  \<^verbatim>\<open>c\<close>, requested only when \<^verbatim>\<open>num_rounds > 0\<close>.
\<close>

definition worker_asms :: "collab \<Rightarrow> par_state \<Rightarrow> nat \<Rightarrow> z3_exn + (expr list \<times> expr option)" where
  "worker_asms ops s i =
     (let lasms = pasms s ! i in
      if 0 < num_rounds s then cube ops (worker_limit s i) lasms else Inr (lasms, None))"

text \<open>
  Lines 107 to 120: up to the return of \<^verbatim>\<open>pctx.check\<close>. The result is the worker's
  context and either the exception thrown or \<^verbatim>\<open>r\<close> with the cube.
\<close>

definition worker_check ::
  "collab \<Rightarrow> par_state \<Rightarrow> nat \<Rightarrow> smt_context \<times> (z3_exn + (lbool \<times> expr option))" where
  "worker_check ops s i =
     (case worker_asms ops s i of
        Inl ex \<Rightarrow> (worker_limit s i, Inl ex)
      | Inr (lasms, c) \<Rightarrow>
          (case check ops (worker_limit s i) lasms of
             (pctx, Inl ex) \<Rightarrow> (pctx, Inl ex)
           | (pctx, Inr r) \<Rightarrow> (pctx, Inr (r, c))))"

text \<open>Lines 143 to 145.\<close>

definition cancel_others :: "nat \<Rightarrow> par_state \<Rightarrow> par_state" where
  "cancel_others i s =
     s\<lparr>pms := map (\<lambda>j. if j \<noteq> i then (pms s ! j)\<lparr>limit_cancel := True\<rparr> else pms s ! j)
                [0..<length (pms s)]\<rparr>"

text \<open>
  The body of the \<^verbatim>\<open>try\<close> block: the state it leaves and the exception it throws,
  if any.
\<close>

definition worker_body :: "collab \<Rightarrow> nat \<Rightarrow> par_state \<Rightarrow> par_state \<times> z3_exn option" where
  "worker_body ops i s =
     (case worker_check ops s i of
        (pctx, Inl ex) \<Rightarrow> (set_pctx i pctx s, Some ex)
      | (pctx, Inr (r, c)) \<Rightarrow>
          if r = l_undef \<and> max_conflicts s \<le> m_num_conflicts pctx then
            (set_pctx i pctx s, None)
          else if r = l_false \<and> core_contains (m_unsat_core pctx) c then
            (set_pctx i (assert_expr (mk_not (mk_and (m_unsat_core pctx))) pctx) s, None)
          else if finished_id s = UINT_MAX then
            (cancel_others i
               ((set_pctx i pctx s)\<lparr>finished_id := of_nat i, result := r, done_flag := True\<rparr>),
             None)
          else (set_pctx i pctx s, None))"

definition worker_thread :: "collab \<Rightarrow> nat \<Rightarrow> par_state \<Rightarrow> par_state" where
  "worker_thread ops i s =
     (case worker_body ops i s of
        (s', None) \<Rightarrow> s'
      | (s', Some (z3_error code)) \<Rightarrow>
          s'\<lparr>error_code := code, ex_kind := ERROR_EX, done_flag := True\<rparr>
      | (s', Some (z3_exception msg)) \<Rightarrow>
          s'\<lparr>ex_msg := msg, ex_kind := DEFAULT_EX, done_flag := True\<rparr>)"

subsection \<open>The round loop (lines 160 to 173)\<close>

text \<open>One round: the threads of the schedule, then the join.\<close>

definition run_round :: "collab \<Rightarrow> nat list \<Rightarrow> par_state \<Rightarrow> par_state" where
  "run_round ops sch s = foldl (\<lambda>s i. worker_thread ops i s) s sch"

text \<open>Lines 170 to 172.\<close>

definition next_round :: "collab \<Rightarrow> par_state \<Rightarrow> par_state" where
  "next_round ops s =
     (let s1 = collect_units ops s in
      s1\<lparr>num_rounds := num_rounds s1 + 1, max_conflicts := max_conflicts s1 * 2\<rparr>)"

fun round_loop :: "collab \<Rightarrow> nat list list \<Rightarrow> par_state \<Rightarrow> par_state option" where
  "round_loop ops [] s = None"
| "round_loop ops (sch # scheds) s =
     (let s' = run_round ops sch s in
      if done_flag s' then Some s' else round_loop ops scheds (next_round ops s'))"

text \<open>The state in which round \<open>k\<close> starts, when the loop gets that far.\<close>

fun round_start :: "collab \<Rightarrow> nat list list \<Rightarrow> par_state \<Rightarrow> nat \<Rightarrow> par_state option" where
  "round_start ops scheds s 0 = Some s"
| "round_start ops [] s (Suc k) = None"
| "round_start ops (sch # scheds) s (Suc k) =
     (let s' = run_round ops sch s in
      if done_flag s' then None else round_start ops scheds (next_round ops s') k)"

subsection \<open>After the loop (lines 175 to 204)\<close>

text \<open>Lines 175 to 177.\<close>

definition collect_all_statistics :: "collab \<Rightarrow> smt_context list \<Rightarrow> smt_context \<Rightarrow> smt_context" where
  "collect_all_statistics ops cs c0 =
     foldl (\<lambda>c0 c. c0\<lparr>m_aux_stats := collect_statistics ops c (m_aux_stats c0)\<rparr>) c0 cs"

text \<open>
  Lines 175 to 204, with the restore of \<^verbatim>\<open>m_threads\<close> that \<^verbatim>\<open>flet\<close> does when the
  function is left: the primary context as the call leaves it, and the exception
  thrown or the value returned.
\<close>

definition finish :: "collab \<Rightarrow> par_state \<Rightarrow> smt_context \<times> (z3_exn + lbool)" where
  "finish ops s =
     (let c0 = (collect_all_statistics ops (pctxs s) (ctx s))\<lparr>m_threads := of_nat (num_threads s)\<rparr> in
      if finished_id s = UINT_MAX then
        (case ex_kind s of
           ERROR_EX \<Rightarrow> (c0, Inl (z3_error (error_code s)))
         | DEFAULT_EX \<Rightarrow> (c0, Inl (default_exception (ex_msg s))))
      else
        (let w = unat (finished_id s); pctx = pctxs s ! w in
         case result s of
           l_true \<Rightarrow>
             (case get_model ops pctx of
                Some mdl \<Rightarrow> (c0\<lparr>m_model := Some (translate_model ops (Worker w) Primary mdl)\<rparr>, Inr l_true)
              | None \<Rightarrow> (c0, Inr l_true))
         | l_false \<Rightarrow>
             (c0\<lparr>m_unsat_core := m_unsat_core c0 @ map (translate ops (Worker w) Primary) (m_unsat_core pctx)\<rparr>,
              Inr l_false)
         | l_undef \<Rightarrow> (c0, Inr l_undef)))"

text \<open>\<^verbatim>\<open>parallel::operator()\<close>.\<close>

definition parallel_operator ::
  "collab \<Rightarrow> nat list list \<Rightarrow> smt_context \<Rightarrow> expr list \<Rightarrow> (smt_context \<times> (z3_exn + lbool)) option" where
  "parallel_operator ops scheds c asms =
     map_option (finish ops) (round_loop ops scheds (init_state ops c asms))"

subsection \<open>Observations of a round\<close>

fun faults :: "collab \<Rightarrow> nat list \<Rightarrow> par_state \<Rightarrow> z3_exn list" where
  "faults ops [] s = []"
| "faults ops (i # sch) s =
     (case snd (worker_body ops i s) of None \<Rightarrow> [] | Some ex \<Rightarrow> [ex]) @
     faults ops sch (worker_thread ops i s)"

definition captured :: "par_state \<Rightarrow> z3_exn \<Rightarrow> bool" where
  "captured s ex =
     (case ex of
        z3_error code \<Rightarrow> ex_kind s = ERROR_EX \<and> error_code s = code
      | z3_exception msg \<Rightarrow> ex_kind s = DEFAULT_EX \<and> ex_msg s = msg)"

text \<open>
  The worker gets to the critical section (lines 131 to 141): its \<^verbatim>\<open>try\<close> block
  neither throws nor takes one of the two early returns.
\<close>

definition reaches_claim :: "collab \<Rightarrow> nat \<Rightarrow> par_state \<Rightarrow> bool" where
  "reaches_claim ops i s =
     (case worker_check ops s i of
        (pctx, Inl ex) \<Rightarrow> False
      | (pctx, Inr (r, c)) \<Rightarrow>
          \<not> (r = l_undef \<and> max_conflicts s \<le> m_num_conflicts pctx) \<and>
          \<not> (r = l_false \<and> core_contains (m_unsat_core pctx) c))"

text \<open>The workers of a round that get to the critical section, in schedule order.\<close>

fun claimants :: "collab \<Rightarrow> nat list \<Rightarrow> par_state \<Rightarrow> nat list" where
  "claimants ops [] s = []"
| "claimants ops (i # sch) s =
     (if reaches_claim ops i s then [i] else []) @ claimants ops sch (worker_thread ops i s)"

text \<open>The workers of a round whose run changes \<^verbatim>\<open>finished_id\<close>.\<close>

fun winners :: "collab \<Rightarrow> nat list \<Rightarrow> par_state \<Rightarrow> nat list" where
  "winners ops [] s = []"
| "winners ops (i # sch) s =
     (if finished_id (worker_thread ops i s) \<noteq> finished_id s then [i] else []) @
     winners ops sch (worker_thread ops i s)"

text \<open>
  The log of worker \<open>i\<close> as the relay sees it: every assigned literal of the popped
  context, as an expression of the primary manager.
\<close>

definition worker_log :: "collab \<Rightarrow> par_state \<Rightarrow> nat \<Rightarrow> expr list" where
  "worker_log ops s i = new_units ops i 0 (pop_to_base_lvl ops (pctxs s ! i))"

text \<open>The part of that log the relay reads: from index \<^verbatim>\<open>unit_lim[i]\<close> on.\<close>

definition read_units :: "collab \<Rightarrow> par_state \<Rightarrow> nat \<Rightarrow> expr list" where
  "read_units ops s i = new_units ops i (unit_lim s ! i) (pop_to_base_lvl ops (pctxs s ! i))"

text \<open>
  The facts of the trail that one run of the relay asserts into worker \<open>w\<close>
  (lines 94 to 98), and those facts over all the relays before round \<open>k\<close>.
\<close>

definition relay_asserted :: "collab \<Rightarrow> par_state \<Rightarrow> nat \<Rightarrow> expr list" where
  "relay_asserted ops s w = drop (unit_lim s ! w) (unit_trail (collect_units ops s))"

primrec relayed :: "collab \<Rightarrow> nat list list \<Rightarrow> par_state \<Rightarrow> nat \<Rightarrow> nat \<Rightarrow> expr list" where
  "relayed ops scheds s w 0 = []"
| "relayed ops scheds s w (Suc k) =
     relayed ops scheds s w k @
     (case round_start ops scheds s k of
        None \<Rightarrow> []
      | Some sk \<Rightarrow> if k < length scheds then relay_asserted ops (run_round ops (scheds ! k) sk) w else [])"

text \<open>The trail and its set agree; and each offset is the length of the trail.\<close>

definition trail_inv :: "par_state \<Rightarrow> bool" where
  "trail_inv s \<longleftrightarrow> distinct (unit_trail s) \<and> set (unit_trail s) = unit_set s"

definition relay_inv :: "par_state \<Rightarrow> bool" where
  "relay_inv s \<longleftrightarrow>
     trail_inv s \<and> length (pctxs s) = num_threads s \<and> length (unit_lim s) = num_threads s \<and>
     (\<forall>i<num_threads s. unit_lim s ! i = length (unit_trail s))"

text \<open>The cube \<^verbatim>\<open>c\<close> that worker \<open>i\<close> gets when its thread starts in state \<open>s\<close>.\<close>

definition worker_cube :: "collab \<Rightarrow> par_state \<Rightarrow> nat \<Rightarrow> expr option" where
  "worker_cube ops s i = (case worker_asms ops s i of Inl ex \<Rightarrow> None | Inr (lasms, c) \<Rightarrow> c)"

subsection \<open>Concrete collaborators for the examples\<close>

definition demo_ctx :: smt_context where
  "demo_ctx =
     \<lparr> m_threads = 2, m_threads_max_conflicts = 400, m_max_conflicts = 0, m_random_seed = 0,
       m_num_conflicts = 0, m_assigned_literals = [], m_bool_var2expr = [],
       m_asserted_formulas = [], m_unsat_core = [], m_model = None, m_aux_stats = [] \<rparr>"

definition demo_ops :: "(smt_context \<Rightarrow> expr list \<Rightarrow> smt_context \<times> (z3_exn + lbool)) \<Rightarrow> collab" where
  "demo_ops chk =
     \<lparr> copy_context = (\<lambda>c a. c), translate = (\<lambda>from to e. e), translate_model = (\<lambda>from to mdl. mdl),
       lh_choose = (\<lambda>c. Inr None), check = chk, pop_to_base_lvl = (\<lambda>c. c),
       get_model = m_model,
       collect_statistics = (\<lambda>c st. st @ [(''conflicts'', unat (m_num_conflicts c))]) \<rparr>"

definition check_unknown :: "smt_context \<Rightarrow> expr list \<Rightarrow> smt_context \<times> (z3_exn + lbool)" where
  "check_unknown c asms = (c\<lparr>m_num_conflicts := 3\<rparr>, Inr l_undef)"

definition check_faulty :: "smt_context \<Rightarrow> expr list \<Rightarrow> smt_context \<times> (z3_exn + lbool)" where
  "check_faulty c asms =
     (c, Inl (if m_random_seed c = 0 then z3_error 7 else z3_exception ''late''))"

definition check_sat_no_model :: "smt_context \<Rightarrow> expr list \<Rightarrow> smt_context \<times> (z3_exn + lbool)" where
  "check_sat_no_model c asms = (c\<lparr>m_model := None\<rparr>, Inr l_true)"


definition demo_ctx_with_model :: smt_context where
  "demo_ctx_with_model = demo_ctx\<lparr>m_model := Some (Model [(0, True)])\<rparr>"


definition demo_ops_cube :: "(smt_context \<Rightarrow> expr list \<Rightarrow> smt_context \<times> (z3_exn + lbool)) \<Rightarrow> collab" where
  "demo_ops_cube chk = (demo_ops chk)\<lparr>lh_choose := (\<lambda>c. Inr (Some (Atom 9)))\<rparr>"

definition demo_ctx3 :: smt_context where
  "demo_ctx3 = demo_ctx\<lparr>m_threads := 3\<rparr>"

text \<open>
  Two workers that use up their budget in every round. Worker 0 derives \<open>Atom 0\<close> in
  round 0 and \<open>Atom 2\<close> in round 1; worker 1 derives \<open>Atom 1\<close> and \<open>Not (Atom 3)\<close> in
  round 0. Neither solver lists the facts asserted into it among its assigned
  literals. The states are the start and the end of rounds 0 and 1 and the start of
  round 2.
\<close>

definition demo_vars :: "expr list" where
  "demo_vars = [Atom 0, Atom 1, Atom 2, Atom 3]"

definition check_units :: "smt_context \<Rightarrow> expr list \<Rightarrow> smt_context \<times> (z3_exn + lbool)" where
  "check_units c asms =
     (c\<lparr>m_bool_var2expr := demo_vars,
        m_num_conflicts := m_max_conflicts c,
        m_assigned_literals :=
          (if m_random_seed c = 0 then
             (if m_assigned_literals c = [] then [Literal 0 False]
              else [Literal 0 False, Literal 2 False])
           else [Literal 1 False, Literal 3 True])\<rparr>,
      Inr l_undef)"

definition units_s0 :: par_state where
  "units_s0 = init_state (demo_ops check_units) demo_ctx []"

definition units_e0 :: par_state where
  "units_e0 = run_round (demo_ops check_units) [0, 1] units_s0"

definition units_s1 :: par_state where
  "units_s1 = next_round (demo_ops check_units) units_e0"

definition units_e1 :: par_state where
  "units_e1 = run_round (demo_ops check_units) [1, 0] units_s1"

definition units_s2 :: par_state where
  "units_s2 = next_round (demo_ops check_units) units_e1"

text \<open>
  Two workers with the cube \<open>Atom 9\<close>. Round 0 (budget 400) exhausts both. In round 1
  worker 0 reports unsat with a core that holds all its assumptions, the cube
  included; worker 1 reports unsat with a core that leaves the cube out.
\<close>

definition check_cube :: "smt_context \<Rightarrow> expr list \<Rightarrow> smt_context \<times> (z3_exn + lbool)" where
  "check_cube c asms =
     (if m_max_conflicts c = 400 then (c\<lparr>m_num_conflicts := 400\<rparr>, Inr l_undef)
      else if m_random_seed c = 0 then (c\<lparr>m_unsat_core := asms\<rparr>, Inr l_false)
      else (c\<lparr>m_unsat_core := butlast asms\<rparr>, Inr l_false))"

definition cube_s1 :: par_state where
  "cube_s1 =
     next_round (demo_ops_cube check_cube)
       (run_round (demo_ops_cube check_cube) [0, 1]
          (init_state (demo_ops_cube check_cube) demo_ctx [Atom 5]))"

section \<open>Frame lemmas and the shape of the loop\<close>

lemma set_pctx_frame [simp]:
  "ctx (set_pctx i p s) = ctx s" "pms (set_pctx i p s) = pms s" "pasms (set_pctx i p s) = pasms s"
  "result (set_pctx i p s) = result s" "num_threads (set_pctx i p s) = num_threads s"
  "finished_id (set_pctx i p s) = finished_id s" "ex_msg (set_pctx i p s) = ex_msg s"
  "ex_kind (set_pctx i p s) = ex_kind s" "error_code (set_pctx i p s) = error_code s"
  "done_flag (set_pctx i p s) = done_flag s" "num_rounds (set_pctx i p s) = num_rounds s"
  "max_conflicts (set_pctx i p s) = max_conflicts s" "unit_set (set_pctx i p s) = unit_set s"
  "unit_trail (set_pctx i p s) = unit_trail s" "unit_lim (set_pctx i p s) = unit_lim s"
  "pctxs (set_pctx i p s) = (pctxs s)[i := p]"
  by (simp_all add: set_pctx_def)

lemma cancel_others_frame [simp]:
  "ctx (cancel_others i s) = ctx s" "pctxs (cancel_others i s) = pctxs s" "pasms (cancel_others i s) = pasms s"
  "result (cancel_others i s) = result s" "num_threads (cancel_others i s) = num_threads s"
  "finished_id (cancel_others i s) = finished_id s" "ex_msg (cancel_others i s) = ex_msg s"
  "ex_kind (cancel_others i s) = ex_kind s" "error_code (cancel_others i s) = error_code s"
  "done_flag (cancel_others i s) = done_flag s" "num_rounds (cancel_others i s) = num_rounds s"
  "max_conflicts (cancel_others i s) = max_conflicts s" "unit_set (cancel_others i s) = unit_set s"
  "unit_trail (cancel_others i s) = unit_trail s" "unit_lim (cancel_others i s) = unit_lim s"
  by (simp_all add: cancel_others_def)

text \<open>The four shapes a worker's run can take.\<close>

lemma worker_thread_cases:
  obtains
    (exhausted) pctx where "worker_thread ops i s = set_pctx i pctx s"
  | (claimed) pctx r c where "worker_check ops s i = (pctx, Inr (r, c))"
      "\<not> (r = l_undef \<and> max_conflicts s \<le> m_num_conflicts pctx)"
      "\<not> (r = l_false \<and> core_contains (m_unsat_core pctx) c)"
      "finished_id s = UINT_MAX"
      "worker_thread ops i s =
         cancel_others i ((set_pctx i pctx s)\<lparr>finished_id := of_nat i, result := r, done_flag := True\<rparr>)"
  | (error) pctx code where "worker_body ops i s = (set_pctx i pctx s, Some (z3_error code))"
      "worker_thread ops i s = (set_pctx i pctx s)\<lparr>error_code := code, ex_kind := ERROR_EX, done_flag := True\<rparr>"
  | (exception) pctx msg where "worker_body ops i s = (set_pctx i pctx s, Some (z3_exception msg))"
      "worker_thread ops i s = (set_pctx i pctx s)\<lparr>ex_msg := msg, ex_kind := DEFAULT_EX, done_flag := True\<rparr>"
proof (cases "worker_check ops s i")
  case (Pair pctx res)
  show ?thesis
  proof (cases res)
    case (Inl ex)
    with Pair have b: "worker_body ops i s = (set_pctx i pctx s, Some ex)"
      by (simp add: worker_body_def)
    show ?thesis
    proof (cases ex)
      case (z3_error code)
      with b show ?thesis by (intro error[of pctx code]) (simp_all add: worker_thread_def)
    next
      case (z3_exception msg)
      with b show ?thesis by (intro exception[of pctx msg]) (simp_all add: worker_thread_def)
    qed
  next
    case (Inr rc)
    obtain r c where rc: "rc = (r, c)" by (cases rc)
    show ?thesis
    proof (cases "r = l_undef \<and> max_conflicts s \<le> m_num_conflicts pctx")
      case True
      with Pair Inr rc show ?thesis
        by (intro exhausted[of pctx]) (simp add: worker_thread_def worker_body_def)
    next
      case nu: False
      show ?thesis
      proof (cases "r = l_false \<and> core_contains (m_unsat_core pctx) c")
        case True
        with nu Pair Inr rc show ?thesis
          by (intro exhausted[of "assert_expr (mk_not (mk_and (m_unsat_core pctx))) pctx"])
            (auto simp add: worker_thread_def worker_body_def)
      next
        case nc: False
        show ?thesis
        proof (cases "finished_id s = UINT_MAX")
          case True
          with nu nc Pair Inr rc show ?thesis
            by (intro claimed[of pctx r c]) (auto simp add: worker_thread_def worker_body_def)
        next
          case False
          with nu nc Pair Inr rc show ?thesis
            by (intro exhausted[of pctx]) (auto simp add: worker_thread_def worker_body_def)
        qed
      qed
    qed
  qed
qed

lemma worker_thread_frame [simp]:
  "ctx (worker_thread ops i s) = ctx s" "pasms (worker_thread ops i s) = pasms s"
  "num_threads (worker_thread ops i s) = num_threads s"
  "num_rounds (worker_thread ops i s) = num_rounds s"
  "max_conflicts (worker_thread ops i s) = max_conflicts s"
  "unit_set (worker_thread ops i s) = unit_set s"
  "unit_trail (worker_thread ops i s) = unit_trail s" "unit_lim (worker_thread ops i s) = unit_lim s"
  "length (pctxs (worker_thread ops i s)) = length (pctxs s)"
  by (cases ops i s rule: worker_thread_cases; simp)+

lemma run_round_frame [simp]:
  "ctx (run_round ops sch s) = ctx s" "pasms (run_round ops sch s) = pasms s"
  "num_threads (run_round ops sch s) = num_threads s"
  "num_rounds (run_round ops sch s) = num_rounds s"
  "max_conflicts (run_round ops sch s) = max_conflicts s"
  "unit_set (run_round ops sch s) = unit_set s"
  "unit_trail (run_round ops sch s) = unit_trail s" "unit_lim (run_round ops sch s) = unit_lim s"
  "length (pctxs (run_round ops sch s)) = length (pctxs s)"
  unfolding run_round_def by (induction sch arbitrary: s; simp)+

lemma collect_worker_frame [simp]:
  "ctx (collect_worker ops s i) = ctx s" "pasms (collect_worker ops s i) = pasms s"
  "pms (collect_worker ops s i) = pms s"
  "result (collect_worker ops s i) = result s" "num_threads (collect_worker ops s i) = num_threads s"
  "finished_id (collect_worker ops s i) = finished_id s" "ex_msg (collect_worker ops s i) = ex_msg s"
  "ex_kind (collect_worker ops s i) = ex_kind s" "error_code (collect_worker ops s i) = error_code s"
  "done_flag (collect_worker ops s i) = done_flag s" "num_rounds (collect_worker ops s i) = num_rounds s"
  "max_conflicts (collect_worker ops s i) = max_conflicts s"
  "unit_lim (collect_worker ops s i) = unit_lim s"
  "length (pctxs (collect_worker ops s i)) = length (pctxs s)"
  by (simp_all add: collect_worker_def Let_def)

lemma assert_units_frame [simp]:
  "ctx (assert_units ops sz s i) = ctx s" "pasms (assert_units ops sz s i) = pasms s"
  "pms (assert_units ops sz s i) = pms s"
  "result (assert_units ops sz s i) = result s" "num_threads (assert_units ops sz s i) = num_threads s"
  "finished_id (assert_units ops sz s i) = finished_id s" "ex_msg (assert_units ops sz s i) = ex_msg s"
  "ex_kind (assert_units ops sz s i) = ex_kind s" "error_code (assert_units ops sz s i) = error_code s"
  "done_flag (assert_units ops sz s i) = done_flag s" "num_rounds (assert_units ops sz s i) = num_rounds s"
  "max_conflicts (assert_units ops sz s i) = max_conflicts s"
  "unit_set (assert_units ops sz s i) = unit_set s"
  "unit_trail (assert_units ops sz s i) = unit_trail s"
  "length (pctxs (assert_units ops sz s i)) = length (pctxs s)"
  "length (unit_lim (assert_units ops sz s i)) = length (unit_lim s)"
  by (simp_all add: assert_units_def Let_def)

lemma foldl_collect_worker_frame [simp]:
  "ctx (foldl (collect_worker ops) s is) = ctx s" "pasms (foldl (collect_worker ops) s is) = pasms s"
  "pms (foldl (collect_worker ops) s is) = pms s"
  "result (foldl (collect_worker ops) s is) = result s"
  "num_threads (foldl (collect_worker ops) s is) = num_threads s"
  "finished_id (foldl (collect_worker ops) s is) = finished_id s"
  "ex_msg (foldl (collect_worker ops) s is) = ex_msg s"
  "ex_kind (foldl (collect_worker ops) s is) = ex_kind s"
  "error_code (foldl (collect_worker ops) s is) = error_code s"
  "done_flag (foldl (collect_worker ops) s is) = done_flag s"
  "num_rounds (foldl (collect_worker ops) s is) = num_rounds s"
  "max_conflicts (foldl (collect_worker ops) s is) = max_conflicts s"
  "unit_lim (foldl (collect_worker ops) s is) = unit_lim s"
  "length (pctxs (foldl (collect_worker ops) s is)) = length (pctxs s)"
  by (induction "is" arbitrary: s; simp)+

lemma foldl_assert_units_frame [simp]:
  "ctx (foldl (assert_units ops sz) s is) = ctx s" "pasms (foldl (assert_units ops sz) s is) = pasms s"
  "pms (foldl (assert_units ops sz) s is) = pms s"
  "result (foldl (assert_units ops sz) s is) = result s"
  "num_threads (foldl (assert_units ops sz) s is) = num_threads s"
  "finished_id (foldl (assert_units ops sz) s is) = finished_id s"
  "ex_msg (foldl (assert_units ops sz) s is) = ex_msg s"
  "ex_kind (foldl (assert_units ops sz) s is) = ex_kind s"
  "error_code (foldl (assert_units ops sz) s is) = error_code s"
  "done_flag (foldl (assert_units ops sz) s is) = done_flag s"
  "num_rounds (foldl (assert_units ops sz) s is) = num_rounds s"
  "max_conflicts (foldl (assert_units ops sz) s is) = max_conflicts s"
  "unit_set (foldl (assert_units ops sz) s is) = unit_set s"
  "unit_trail (foldl (assert_units ops sz) s is) = unit_trail s"
  "length (pctxs (foldl (assert_units ops sz) s is)) = length (pctxs s)"
  "length (unit_lim (foldl (assert_units ops sz) s is)) = length (unit_lim s)"
  by (induction "is" arbitrary: s; simp)+

lemma collect_units_frame [simp]:
  "ctx (collect_units ops s) = ctx s" "pasms (collect_units ops s) = pasms s"
  "pms (collect_units ops s) = pms s"
  "result (collect_units ops s) = result s" "num_threads (collect_units ops s) = num_threads s"
  "finished_id (collect_units ops s) = finished_id s" "ex_msg (collect_units ops s) = ex_msg s"
  "ex_kind (collect_units ops s) = ex_kind s" "error_code (collect_units ops s) = error_code s"
  "done_flag (collect_units ops s) = done_flag s" "num_rounds (collect_units ops s) = num_rounds s"
  "max_conflicts (collect_units ops s) = max_conflicts s"
  "length (pctxs (collect_units ops s)) = length (pctxs s)"
  "length (unit_lim (collect_units ops s)) = length (unit_lim s)"
  by (simp_all add: collect_units_def Let_def)

lemma next_round_frame [simp]:
  "ctx (next_round ops s) = ctx s" "pasms (next_round ops s) = pasms s"
  "pms (next_round ops s) = pms s"
  "result (next_round ops s) = result s" "num_threads (next_round ops s) = num_threads s"
  "finished_id (next_round ops s) = finished_id s" "ex_msg (next_round ops s) = ex_msg s"
  "ex_kind (next_round ops s) = ex_kind s" "error_code (next_round ops s) = error_code s"
  "done_flag (next_round ops s) = done_flag s"
  "num_rounds (next_round ops s) = num_rounds s + 1"
  "max_conflicts (next_round ops s) = max_conflicts s * 2"
  "length (pctxs (next_round ops s)) = length (pctxs s)"
  "length (unit_lim (next_round ops s)) = length (unit_lim s)"
  "unit_trail (next_round ops s) = unit_trail (collect_units ops s)"
  "unit_set (next_round ops s) = unit_set (collect_units ops s)"
  "unit_lim (next_round ops s) = unit_lim (collect_units ops s)"
  "pctxs (next_round ops s) = pctxs (collect_units ops s)"
  by (simp_all add: next_round_def Let_def)

text \<open>The loop returns exactly when some round within the fuel sets the flag.\<close>

lemma round_loop_iff:
  "round_loop ops scheds s = Some s' \<longleftrightarrow>
     (\<exists>k sk. k < length scheds \<and> round_start ops scheds s k = Some sk \<and>
        s' = run_round ops (scheds ! k) sk \<and> done_flag s')"
proof (induction scheds arbitrary: s)
  case Nil
  show ?case by simp
next
  case (Cons sch scheds)
  show ?case
  proof (cases "done_flag (run_round ops sch s)")
    case True
    have only: "k = 0 \<and> sk = s" if "round_start ops (sch # scheds) s k = Some sk" for k sk
      using True that by (cases k) auto
    show ?thesis
    proof
      assume "round_loop ops (sch # scheds) s = Some s'"
      with True have "s' = run_round ops sch s" by simp
      with True show "\<exists>k sk. k < length (sch # scheds) \<and> round_start ops (sch # scheds) s k = Some sk \<and>
        s' = run_round ops ((sch # scheds) ! k) sk \<and> done_flag s'"
        by (intro exI[of _ 0] exI[of _ s]) simp
    next
      assume "\<exists>k sk. k < length (sch # scheds) \<and> round_start ops (sch # scheds) s k = Some sk \<and>
        s' = run_round ops ((sch # scheds) ! k) sk \<and> done_flag s'"
      then obtain k sk where "round_start ops (sch # scheds) s k = Some sk"
        "s' = run_round ops ((sch # scheds) ! k) sk" by blast
      with only[of k sk] have "s' = run_round ops sch s" by simp
      with True show "round_loop ops (sch # scheds) s = Some s'" by simp
    qed
  next
    case False
    have "(\<exists>k sk. k < length (sch # scheds) \<and> round_start ops (sch # scheds) s k = Some sk \<and>
        s' = run_round ops ((sch # scheds) ! k) sk \<and> done_flag s') \<longleftrightarrow>
       (\<exists>k sk. k < length scheds \<and> round_start ops scheds (next_round ops (run_round ops sch s)) k = Some sk \<and>
        s' = run_round ops (scheds ! k) sk \<and> done_flag s')" (is "?L \<longleftrightarrow> ?R")
    proof
      assume ?L
      then obtain k sk where k: "k < length (sch # scheds)" "round_start ops (sch # scheds) s k = Some sk"
        "s' = run_round ops ((sch # scheds) ! k) sk" "done_flag s'" by blast
      show ?R
      proof (cases k)
        case 0
        with k False show ?thesis by simp
      next
        case (Suc j)
        with k False show ?thesis by (auto intro!: exI[of _ j])
      qed
    next
      assume ?R
      then obtain k sk where k: "k < length scheds"
        "round_start ops scheds (next_round ops (run_round ops sch s)) k = Some sk"
        "s' = run_round ops (scheds ! k) sk" "done_flag s'" by blast
      then show ?L using False by (intro exI[of _ "Suc k"] exI[of _ sk]) simp
    qed
    then show ?thesis using False Cons.IH by simp
  qed
qed

lemma round_start_frame:
  "round_start ops scheds s k = Some sk \<Longrightarrow>
     ctx sk = ctx s \<and> pasms sk = pasms s \<and> num_threads sk = num_threads s \<and>
     length (pctxs sk) = length (pctxs s) \<and> length (unit_lim sk) = length (unit_lim s)"
proof (induction ops scheds s k rule: round_start.induct)
  case (3 ops sch scheds s k)
  then show ?case by (auto simp: Let_def split: if_splits)
qed simp_all

lemma round_loop_frame:
  assumes "round_loop ops scheds s = Some s'"
  shows "ctx s' = ctx s" "pasms s' = pasms s" "num_threads s' = num_threads s"
    "length (pctxs s') = length (pctxs s)"
  using assms round_start_frame unfolding round_loop_iff by fastforce+

lemma round_loop_done: "round_loop ops scheds s = Some s' \<Longrightarrow> done_flag s'"
  unfolding round_loop_iff by blast

lemma upt_0_2: "[0..<2] = [0, 1]"
  by (simp add: numeral_2_eq_2)

lemma upt_0_3: "[0..<3] = [0, 1, 2]"
  by (simp add: numeral_3_eq_3)

lemmas demo_simps = demo_ctx_def demo_ops_def init_state_def run_round_def worker_thread_def
  worker_body_def worker_check_def worker_asms_def worker_limit_def cube_def set_pctx_def
  cancel_others_def UINT_MAX_def Let_def core_contains_def upt_0_2 upt_0_3

lemma worker_thread_done_mono: "done_flag s \<Longrightarrow> done_flag (worker_thread ops i s)"
  by (cases ops i s rule: worker_thread_cases) simp_all

lemma run_round_done_mono: "done_flag s \<Longrightarrow> done_flag (run_round ops sch s)"
  unfolding run_round_def by (induction sch arbitrary: s) (simp_all add: worker_thread_done_mono)

lemma run_round_Cons: "run_round ops (i # sch) s = run_round ops sch (worker_thread ops i s)"
  by (simp add: run_round_def)

lemma run_round_append: "run_round ops (xs @ ys) s = run_round ops ys (run_round ops xs s)"
  by (simp add: run_round_def)

lemma finish_outcome:
  "snd (finish ops s) =
     (if finished_id s = UINT_MAX then
        Inl (case ex_kind s of ERROR_EX \<Rightarrow> z3_error (error_code s)
             | DEFAULT_EX \<Rightarrow> default_exception (ex_msg s))
      else Inr (result s))"
  by (simp add: finish_def Let_def split: par_exception_kind.split lbool.split option.split)

lemma collect_all_statistics_frame [simp]:
  "m_model (collect_all_statistics ops cs c0) = m_model c0"
  "m_unsat_core (collect_all_statistics ops cs c0) = m_unsat_core c0"
  "m_aux_stats (collect_all_statistics ops cs c0) =
     foldl (\<lambda>st w. collect_statistics ops w st) (m_aux_stats c0) cs"
  unfolding collect_all_statistics_def by (induction cs arbitrary: c0; simp)+

lemma finish_stats:
  "m_aux_stats (fst (finish ops s)) =
     foldl (\<lambda>st w. collect_statistics ops w st) (m_aux_stats (ctx s)) (pctxs s)"
  by (simp add: finish_def Let_def split: par_exception_kind.split lbool.split option.split)

lemma init_state_ctx [simp]:
  "m_aux_stats (ctx (init_state ops c asms)) = m_aux_stats c"
  "m_model (ctx (init_state ops c asms)) = m_model c"
  "m_unsat_core (ctx (init_state ops c asms)) = m_unsat_core c"
  by (simp_all add: init_state_def Let_def)

lemmas relay_simps = next_round_def collect_units_def collect_worker_def assert_units_def
  new_units_def add_unit_def lit2expr_def assert_expr_def


lemma init_state_budget [simp]:
  "max_conflicts (init_state ops c asms) = m_threads_max_conflicts c"
  "num_rounds (init_state ops c asms) = 0"
  by (simp_all add: init_state_def Let_def)



section \<open>The unit relay\<close>

subsection \<open>add\_unit\<close>

lemma foldl_add_unit_fst: "fst (foldl add_unit st es) = fst st \<union> set es"
  by (induction es arbitrary: st) (auto simp: add_unit_def)

lemma foldl_add_unit_inv:
  "distinct (snd st) \<Longrightarrow> set (snd st) = fst st \<Longrightarrow>
     distinct (snd (foldl add_unit st es)) \<and> set (snd (foldl add_unit st es)) = fst (foldl add_unit st es)"
  by (induction es arbitrary: st) (auto simp: add_unit_def)

lemma foldl_add_unit_prefix: "\<exists>ys. snd (foldl add_unit st es) = snd st @ ys"
proof (induction es arbitrary: st)
  case Nil
  show ?case by simp
next
  case (Cons e es)
  obtain zs where z: "snd (add_unit st e) = snd st @ zs"
    by (cases "e \<in> fst st") (simp_all add: add_unit_def)
  from Cons[of "add_unit st e"] obtain ys where "snd (foldl add_unit (add_unit st e) es) = snd (add_unit st e) @ ys"
    by blast
  with z have "snd (foldl add_unit st (e # es)) = snd st @ (zs @ ys)" by simp
  then show ?case by blast
qed

lemma foldl_add_unit_known: "set es \<subseteq> fst st \<Longrightarrow> foldl add_unit st es = st"
  by (induction es arbitrary: st) (auto simp: add_unit_def)

subsection \<open>The first loop of collect\_units\<close>

lemma read_units_drop: "read_units ops s i = drop (unit_lim s ! i) (worker_log ops s i)"
  by (simp add: read_units_def worker_log_def new_units_def drop_map)

lemma collect_worker_eq:
  "collect_worker ops s i =
     s\<lparr>pctxs := (pctxs s)[i := pop_to_base_lvl ops (pctxs s ! i)],
       unit_set := fst (foldl add_unit (unit_set s, unit_trail s) (read_units ops s i)),
       unit_trail := snd (foldl add_unit (unit_set s, unit_trail s) (read_units ops s i))\<rparr>"
  by (simp add: collect_worker_def read_units_def Let_def)

lemma collect_phase:
  assumes "distinct is" and "\<forall>i\<in>set is. i < length (pctxs s)"
  shows "(unit_set (foldl (collect_worker ops) s is), unit_trail (foldl (collect_worker ops) s is)) =
           foldl add_unit (unit_set s, unit_trail s) (concat (map (read_units ops s) is)) \<and>
         (\<forall>j. pctxs (foldl (collect_worker ops) s is) ! j =
              (if j \<in> set is then pop_to_base_lvl ops (pctxs s ! j) else pctxs s ! j))"
  using assms
proof (induction "is" rule: rev_induct)
  case Nil
  show ?case by simp
next
  case (snoc i "is")
  let ?s1 = "foldl (collect_worker ops) s is"
  from snoc.prems have d: "distinct is" and b: "\<forall>i\<in>set is. i < length (pctxs s)"
    and ni: "i \<notin> set is" and il: "i < length (pctxs s)" by simp_all
  from snoc.IH[OF d b]
  have st: "(unit_set ?s1, unit_trail ?s1) =
      foldl add_unit (unit_set s, unit_trail s) (concat (map (read_units ops s) is))"
    and px: "\<And>j. pctxs ?s1 ! j = (if j \<in> set is then pop_to_base_lvl ops (pctxs s ! j) else pctxs s ! j)"
    by blast+
  from px[of i] ni have pi: "pctxs ?s1 ! i = pctxs s ! i" by simp
  then have ru: "read_units ops ?s1 i = read_units ops s i" by (simp add: read_units_def)
  have len: "length (pctxs ?s1) = length (pctxs s)" by simp
  have "(unit_set (collect_worker ops ?s1 i), unit_trail (collect_worker ops ?s1 i)) =
      foldl add_unit (unit_set ?s1, unit_trail ?s1) (read_units ops s i)"
    by (simp add: collect_worker_eq ru)
  also have "\<dots> = foldl add_unit (unit_set s, unit_trail s) (concat (map (read_units ops s) (is @ [i])))"
    by (simp add: st)
  finally have 1: "(unit_set (foldl (collect_worker ops) s (is @ [i])), unit_trail (foldl (collect_worker ops) s (is @ [i]))) =
      foldl add_unit (unit_set s, unit_trail s) (concat (map (read_units ops s) (is @ [i])))"
    by simp
  have 2: "pctxs (foldl (collect_worker ops) s (is @ [i])) ! j =
      (if j \<in> set (is @ [i]) then pop_to_base_lvl ops (pctxs s ! j) else pctxs s ! j)" for j
  proof (cases "j = i")
    case True
    with il len pi show ?thesis by (simp add: collect_worker_eq)
  next
    case False
    with px[of j] show ?thesis by (simp add: collect_worker_eq)
  qed
  from 1 2 show ?case by blast
qed

subsection \<open>The second loop of collect\_units\<close>

lemma foldl_assert_expr [simp]:
  "m_asserted_formulas (foldl (\<lambda>c dst. assert_expr dst c) c ds) = m_asserted_formulas c @ ds"
  by (induction ds arbitrary: c) (simp_all add: assert_expr_def)

lemma assert_phase:
  assumes "distinct is" and "\<forall>i\<in>set is. i < length (pctxs s) \<and> i < length (unit_lim s)"
  shows "(\<forall>j. pctxs (foldl (assert_units ops sz) s is) ! j =
              (if j \<in> set is
               then foldl (\<lambda>c dst. assert_expr dst c) (pctxs s ! j)
                      (map (translate ops Primary (Worker j)) (drop (unit_lim s ! j) (take sz (unit_trail s))))
               else pctxs s ! j)) \<and>
         (\<forall>j. unit_lim (foldl (assert_units ops sz) s is) ! j =
              (if j \<in> set is then sz else unit_lim s ! j))"
  using assms
proof (induction "is" rule: rev_induct)
  case Nil
  show ?case by simp
next
  case (snoc i "is")
  let ?s1 = "foldl (assert_units ops sz) s is"
  from snoc.prems have d: "distinct is" and b: "\<forall>i\<in>set is. i < length (pctxs s) \<and> i < length (unit_lim s)"
    and ni: "i \<notin> set is" and il: "i < length (pctxs s)" "i < length (unit_lim s)" by simp_all
  from snoc.IH[OF d b]
  have px: "\<And>j. pctxs ?s1 ! j =
              (if j \<in> set is
               then foldl (\<lambda>c dst. assert_expr dst c) (pctxs s ! j)
                      (map (translate ops Primary (Worker j)) (drop (unit_lim s ! j) (take sz (unit_trail s))))
               else pctxs s ! j)"
    and ul: "\<And>j. unit_lim ?s1 ! j = (if j \<in> set is then sz else unit_lim s ! j)"
    by blast+
  have len: "length (pctxs ?s1) = length (pctxs s)" "length (unit_lim ?s1) = length (unit_lim s)" by simp_all
  have tr: "unit_trail ?s1 = unit_trail s" by simp
  from px[of i] ul[of i] ni have pi: "pctxs ?s1 ! i = pctxs s ! i" "unit_lim ?s1 ! i = unit_lim s ! i" by simp_all
  have 1: "pctxs (foldl (assert_units ops sz) s (is @ [i])) ! j =
              (if j \<in> set (is @ [i])
               then foldl (\<lambda>c dst. assert_expr dst c) (pctxs s ! j)
                      (map (translate ops Primary (Worker j)) (drop (unit_lim s ! j) (take sz (unit_trail s))))
               else pctxs s ! j)" for j
  proof (cases "j = i")
    case True
    with il len pi tr show ?thesis by (simp add: assert_units_def Let_def)
  next
    case False
    with px[of j] show ?thesis by (simp add: assert_units_def Let_def)
  qed
  have 2: "unit_lim (foldl (assert_units ops sz) s (is @ [i])) ! j =
              (if j \<in> set (is @ [i]) then sz else unit_lim s ! j)" for j
  proof (cases "j = i")
    case True
    with il len show ?thesis by (simp add: assert_units_def Let_def)
  next
    case False
    with ul[of j] show ?thesis by (simp add: assert_units_def Let_def)
  qed
  from 1 2 show ?case by blast
qed

subsection \<open>collect\_units as a whole\<close>

lemma collect_units_trail:
  assumes "num_threads s \<le> length (pctxs s)"
  shows "(unit_set (collect_units ops s), unit_trail (collect_units ops s)) =
           foldl add_unit (unit_set s, unit_trail s)
             (concat (map (read_units ops s) [0..<num_threads s]))"
proof -
  have "\<forall>i\<in>set [0..<num_threads s]. i < length (pctxs s)" using assms by simp
  from collect_phase[OF distinct_upt this, of ops] show ?thesis
    by (simp add: collect_units_def Let_def)
qed

lemma collect_units_workers:
  assumes "num_threads s \<le> length (pctxs s)" and "num_threads s \<le> length (unit_lim s)"
    and "w < num_threads s"
  shows "pctxs (collect_units ops s) ! w =
           foldl (\<lambda>c dst. assert_expr dst c) (pop_to_base_lvl ops (pctxs s ! w))
             (map (translate ops Primary (Worker w)) (relay_asserted ops s w))"
    and "unit_lim (collect_units ops s) ! w = length (unit_trail (collect_units ops s))"
proof -
  let ?n = "num_threads s"
  let ?s1 = "foldl (collect_worker ops) s [0..<?n]"
  let ?sz = "length (unit_trail ?s1)"
  have b1: "\<forall>i\<in>set [0..<?n]. i < length (pctxs s)" using assms by simp
  have b2: "\<forall>i\<in>set [0..<?n]. i < length (pctxs ?s1) \<and> i < length (unit_lim ?s1)" using assms by simp
  from collect_phase[OF distinct_upt b1, of ops] assms(3)
  have p1: "pctxs ?s1 ! w = pop_to_base_lvl ops (pctxs s ! w)" by simp
  have cu: "collect_units ops s = foldl (assert_units ops ?sz) ?s1 [0..<?n]"
    by (simp add: collect_units_def Let_def)
  have tr: "unit_trail (collect_units ops s) = unit_trail ?s1" unfolding cu by simp
  from assert_phase[OF distinct_upt b2, of ops ?sz] assms(3)
  have "pctxs (collect_units ops s) ! w =
      foldl (\<lambda>c dst. assert_expr dst c) (pctxs ?s1 ! w)
        (map (translate ops Primary (Worker w)) (drop (unit_lim ?s1 ! w) (take ?sz (unit_trail ?s1))))"
    and ul: "unit_lim (collect_units ops s) ! w = ?sz"
    unfolding cu by simp_all
  then show "pctxs (collect_units ops s) ! w =
           foldl (\<lambda>c dst. assert_expr dst c) (pop_to_base_lvl ops (pctxs s ! w))
             (map (translate ops Primary (Worker w)) (relay_asserted ops s w))"
    by (simp add: p1 relay_asserted_def tr)
  from ul tr show "unit_lim (collect_units ops s) ! w = length (unit_trail (collect_units ops s))"
    by simp
qed

lemma collect_units_trail_inv:
  assumes "trail_inv s"
  shows "trail_inv (collect_units ops s)"
proof -
  let ?s1 = "foldl (collect_worker ops) s [0..<num_threads s]"
  have step: "trail_inv s' \<Longrightarrow> trail_inv (collect_worker ops s' i)" for s' i
    using foldl_add_unit_inv[of "(unit_set s', unit_trail s')" "read_units ops s' i"]
    by (simp add: trail_inv_def collect_worker_eq)
  have "trail_inv (foldl (collect_worker ops) s is)" for "is"
    using assms by (induction "is" rule: rev_induct) (simp_all add: step)
  then have "trail_inv ?s1" .
  then show ?thesis by (simp add: trail_inv_def collect_units_def Let_def)
qed

lemma collect_units_prefix:
  assumes "num_threads s \<le> length (pctxs s)"
  shows "\<exists>ys. unit_trail (collect_units ops s) = unit_trail s @ ys"
proof -
  from collect_units_trail[OF assms, of ops]
  have "unit_trail (collect_units ops s) =
      snd (foldl add_unit (unit_set s, unit_trail s) (concat (map (read_units ops s) [0..<num_threads s])))"
    by (metis snd_conv)
  with foldl_add_unit_prefix[of "(unit_set s, unit_trail s)"] show ?thesis by simp
qed

lemma collect_units_reads:
  assumes "num_threads s \<le> length (pctxs s)" and "i < num_threads s"
  shows "set (read_units ops s i) \<subseteq> unit_set (collect_units ops s)"
proof -
  from collect_units_trail[OF assms(1), of ops]
  have "unit_set (collect_units ops s) =
      fst (foldl add_unit (unit_set s, unit_trail s) (concat (map (read_units ops s) [0..<num_threads s])))"
    by (metis fst_conv)
  then have "unit_set (collect_units ops s) =
      unit_set s \<union> (\<Union>j\<in>{0..<num_threads s}. set (read_units ops s j))"
    by (simp add: foldl_add_unit_fst)
  with assms(2) show ?thesis by auto
qed

lemma collect_units_relay_inv:
  assumes "relay_inv s"
  shows "relay_inv (collect_units ops s)"
proof -
  from assms have t: "trail_inv s" and l: "num_threads s \<le> length (pctxs s)" "num_threads s \<le> length (unit_lim s)"
    and e: "length (pctxs s) = num_threads s" "length (unit_lim s) = num_threads s"
    by (simp_all add: relay_inv_def)
  from collect_units_workers(2)[OF l] collect_units_trail_inv[OF t] e
  show ?thesis by (simp add: relay_inv_def)
qed

subsection \<open>The relay across rounds\<close>

lemma worker_thread_relay_inv: "relay_inv s \<Longrightarrow> relay_inv (worker_thread ops i s)"
  by (simp add: relay_inv_def trail_inv_def)

lemma run_round_relay_inv: "relay_inv s \<Longrightarrow> relay_inv (run_round ops sch s)"
  by (simp add: relay_inv_def trail_inv_def)

lemma next_round_relay_inv: "relay_inv s \<Longrightarrow> relay_inv (next_round ops s)"
  using collect_units_relay_inv[of s ops] by (simp add: relay_inv_def trail_inv_def)

lemma init_state_relay_inv: "relay_inv (init_state ops c asms)"
  by (simp add: relay_inv_def trail_inv_def init_state_def Let_def)

lemma round_start_relay_inv:
  "round_start ops scheds s k = Some sk \<Longrightarrow> relay_inv s \<Longrightarrow> relay_inv sk"
proof (induction ops scheds s k rule: round_start.induct)
  case (3 ops sch scheds s k)
  then show ?case
    by (auto simp: Let_def run_round_relay_inv next_round_relay_inv split: if_splits)
qed simp_all

lemma round_start_Suc:
  "round_start ops scheds s (Suc k) =
     (case round_start ops scheds s k of
        None \<Rightarrow> None
      | Some sk \<Rightarrow>
          if k < length scheds \<and> \<not> done_flag (run_round ops (scheds ! k) sk)
          then Some (next_round ops (run_round ops (scheds ! k) sk)) else None)"
proof (induction scheds arbitrary: s k)
  case Nil
  show ?case by (cases k) simp_all
next
  case (Cons sch scheds)
  show ?case
  proof (cases k)
    case 0
    then show ?thesis by simp
  next
    case (Suc j)
    show ?thesis unfolding Suc
      using Cons[of "next_round ops (run_round ops sch s)" j]
      by (cases "done_flag (run_round ops sch s)") (simp_all add: Let_def split: option.splits)
  qed
qed

lemma relayed_trail:
  "round_start ops scheds s k = Some sk \<Longrightarrow> relay_inv s \<Longrightarrow> w < num_threads s \<Longrightarrow>
     unit_trail s @ relayed ops scheds s w k = unit_trail sk"
proof (induction k arbitrary: sk)
  case 0
  then show ?case by simp
next
  case (Suc k)
  from Suc.prems(1) obtain sj where sj: "round_start ops scheds s k = Some sj"
    and k: "k < length scheds" and nd: "\<not> done_flag (run_round ops (scheds ! k) sj)"
    and sk: "sk = next_round ops (run_round ops (scheds ! k) sj)"
    unfolding round_start_Suc by (auto split: option.splits if_splits)
  let ?se = "run_round ops (scheds ! k) sj"
  from round_start_relay_inv[OF sj Suc.prems(2)] have inv: "relay_inv sj" .
  then have inve: "relay_inv ?se" by (rule run_round_relay_inv)
  from round_start_frame[OF sj] Suc.prems(3) have w: "w < num_threads ?se" by simp
  from inve w have "unit_lim ?se ! w = length (unit_trail ?se)" by (simp add: relay_inv_def)
  then have lim: "unit_lim sj ! w = length (unit_trail sj)" by simp
  from inve have "num_threads ?se \<le> length (pctxs ?se)" by (simp add: relay_inv_def)
  from collect_units_prefix[OF this, of ops] obtain ys where
    ys: "unit_trail (collect_units ops ?se) = unit_trail ?se @ ys" by blast
  have "relay_asserted ops ?se w = ys" by (simp add: relay_asserted_def lim ys)
  with sj k have "relayed ops scheds s w (Suc k) = relayed ops scheds s w k @ ys" by simp
  with Suc.IH[OF sj Suc.prems(2,3)] have "unit_trail s @ relayed ops scheds s w (Suc k) = unit_trail sj @ ys"
    by simp
  with ys sk show ?case by simp
qed

lemma relay_idempotent:
  assumes "relay_inv s"
    and "\<forall>i<num_threads s. worker_log ops (collect_units ops s) i = worker_log ops s i"
  shows "unit_trail (collect_units ops (collect_units ops s)) = unit_trail (collect_units ops s)"
proof -
  let ?s1 = "collect_units ops s"
  from assms(1) have l: "num_threads s \<le> length (pctxs s)" by (simp add: relay_inv_def)
  from collect_units_relay_inv[OF assms(1), of ops] have inv1: "relay_inv ?s1" .
  then have l1: "num_threads ?s1 \<le> length (pctxs ?s1)" by (simp add: relay_inv_def)
  from collect_units_prefix[OF l, of ops] have le: "length (unit_trail s) \<le> length (unit_trail ?s1)"
    by auto
  have known: "set (read_units ops ?s1 i) \<subseteq> unit_set ?s1" if "i < num_threads s" for i
  proof -
    from inv1 that have "unit_lim ?s1 ! i = length (unit_trail ?s1)" by (simp add: relay_inv_def)
    moreover from assms(1) that have "unit_lim s ! i = length (unit_trail s)" by (simp add: relay_inv_def)
    ultimately have "set (read_units ops ?s1 i) \<subseteq> set (read_units ops s i)"
      using assms(2) that le by (simp add: read_units_drop set_drop_subset_set_drop)
    with collect_units_reads[OF l that, of ops] show ?thesis by blast
  qed
  have "set (concat (map (read_units ops ?s1) [0..<num_threads ?s1])) \<subseteq> fst (unit_set ?s1, unit_trail ?s1)"
  proof
    fix x assume "x \<in> set (concat (map (read_units ops ?s1) [0..<num_threads ?s1]))"
    then obtain i where "i < num_threads s" "x \<in> set (read_units ops ?s1 i)" by auto
    with known[of i] show "x \<in> fst (unit_set ?s1, unit_trail ?s1)" by auto
  qed
  from foldl_add_unit_known[OF this] collect_units_trail[OF l1, of ops]
  show ?thesis by simp
qed

lemma trail_inv_reached:
  assumes "round_start ops scheds (init_state ops c asms) k = Some sk"
  shows "distinct (unit_trail sk)" "set (unit_trail sk) = unit_set sk"
  using round_start_relay_inv[OF assms init_state_relay_inv]
  by (simp_all add: relay_inv_def trail_inv_def)

lemmas units_simps = units_s0_def units_e0_def units_s1_def units_e1_def units_s2_def
  check_units_def demo_vars_def worker_log_def read_units_def relay_asserted_def

lemma units_round_1:
  "round_start (demo_ops check_units) [[0, 1], [1, 0]] units_s0 1 = Some units_s1"
  by (simp add: units_simps demo_simps relay_simps)

lemma units_s1_trail: "unit_trail units_s1 = [Atom 0, Atom 1, Not (Atom 3)]"
  by (simp add: units_simps demo_simps relay_simps)

lemma init_state_trail [simp]:
  "unit_trail (init_state ops c asms) = []" "num_threads (init_state ops c asms) = unat (m_threads c)"
  by (simp_all add: init_state_def Let_def)

lemma units_round_2:
  "round_start (demo_ops check_units) [[0, 1], [1, 0]] units_s0 (Suc (Suc 0)) = Some units_s2"
  by (simp add: units_simps demo_simps relay_simps)

section \<open>The race and the capture\<close>

subsection \<open>The catch handlers\<close>

lemma worker_thread_fault:
  assumes "snd (worker_body ops i s) = Some ex"
  shows "captured (worker_thread ops i s) ex \<and> done_flag (worker_thread ops i s)"
proof -
  obtain s' where "worker_body ops i s = (s', Some ex)"
    using assms by (cases "worker_body ops i s") auto
  then show ?thesis
    by (cases ex) (simp_all add: worker_thread_def captured_def)
qed

lemma worker_thread_no_fault:
  assumes "snd (worker_body ops i s) = None"
  shows "ex_kind (worker_thread ops i s) = ex_kind s" "error_code (worker_thread ops i s) = error_code s"
    "ex_msg (worker_thread ops i s) = ex_msg s"
proof -
  obtain s' where b: "worker_body ops i s = (s', None)"
    using assms by (cases "worker_body ops i s") auto
  then have w: "worker_thread ops i s = s'" by (simp add: worker_thread_def)
  from b have "ex_kind s' = ex_kind s \<and> error_code s' = error_code s \<and> ex_msg s' = ex_msg s"
    by (auto simp: worker_body_def split: prod.splits sum.splits if_splits)
  with w show "ex_kind (worker_thread ops i s) = ex_kind s" "error_code (worker_thread ops i s) = error_code s"
    "ex_msg (worker_thread ops i s) = ex_msg s" by simp_all
qed

lemma faults_last:
  "faults ops sch s \<noteq> [] \<Longrightarrow>
     captured (run_round ops sch s) (last (faults ops sch s)) \<and> done_flag (run_round ops sch s)"
proof (induction sch arbitrary: s)
  case Nil
  then show ?case by simp
next
  case (Cons i sch)
  show ?case
  proof (cases "faults ops sch (worker_thread ops i s) = []")
    case False
    with Cons.IH[of "worker_thread ops i s"] show ?thesis
      by (simp add: run_round_Cons)
  next
    case True
    with Cons.prems obtain ex where ex: "snd (worker_body ops i s) = Some ex"
      by (auto split: option.splits)
    have keep: "captured (run_round ops sch s1) ex" if "faults ops sch s1 = []" "captured s1 ex" for s1
      using that
    proof (induction sch arbitrary: s1)
      case Nil
      then show ?case by (simp add: run_round_def)
    next
      case (Cons j sch)
      from Cons.prems have n: "snd (worker_body ops j s1) = None" and r: "faults ops sch (worker_thread ops j s1) = []"
        by (auto split: option.splits)
      from Cons.prems(2) worker_thread_no_fault[OF n] have "captured (worker_thread ops j s1) ex"
        by (auto simp: captured_def split: z3_exn.splits)
      from Cons.IH[OF r this] show ?case by (simp add: run_round_Cons)
    qed
    from worker_thread_fault[OF ex] keep[OF True] True ex show ?thesis
      by (simp add: run_round_Cons run_round_done_mono)
  qed
qed

subsection \<open>The critical section\<close>

lemma worker_thread_claimed_frame:
  assumes "finished_id s \<noteq> UINT_MAX"
  shows "finished_id (worker_thread ops i s) = finished_id s"
    and "result (worker_thread ops i s) = result s"
    and "done_flag s \<longrightarrow> done_flag (worker_thread ops i s)"
  using assms by (cases ops i s rule: worker_thread_cases; simp)+

lemma run_round_claimed_frame:
  "finished_id s \<noteq> UINT_MAX \<Longrightarrow>
     finished_id (run_round ops sch s) = finished_id s \<and>
     result (run_round ops sch s) = result s \<and> winners ops sch s = []"
proof (induction sch arbitrary: s)
  case Nil
  show ?case by (simp add: run_round_def)
next
  case (Cons i sch)
  from worker_thread_claimed_frame(1,2)[OF Cons.prems, of ops i] Cons.IH[of "worker_thread ops i s"] Cons.prems
  show ?case by (simp add: run_round_Cons)
qed

lemma of_nat_index_neq_UINT_MAX:
  assumes "i < unat UINT_MAX"
  shows "(of_nat i :: unsigned) \<noteq> UINT_MAX" and "unat (of_nat i :: unsigned) = i"
proof -
  have u: "unat UINT_MAX = 4294967295" by (simp add: UINT_MAX_def)
  with assms show 2: "unat (of_nat i :: unsigned) = i"
    by (simp add: unat_of_nat take_bit_eq_mod)
  show "(of_nat i :: unsigned) \<noteq> UINT_MAX"
  proof
    assume "(of_nat i :: unsigned) = UINT_MAX"
    with 2 have "i = unat UINT_MAX" by simp
    with assms show False by simp
  qed
qed

lemma worker_thread_claim_step:
  assumes "finished_id s = UINT_MAX"
  shows "reaches_claim ops i s \<Longrightarrow>
           finished_id (worker_thread ops i s) = of_nat i \<and> done_flag (worker_thread ops i s) \<and>
           (\<exists>pctx r c. worker_check ops s i = (pctx, Inr (r, c)) \<and> result (worker_thread ops i s) = r \<and>
               pctxs (worker_thread ops i s) = (pctxs s)[i := pctx] \<and>
               \<not> (r = l_false \<and> core_contains (m_unsat_core pctx) c))"
    and "\<not> reaches_claim ops i s \<Longrightarrow> finished_id (worker_thread ops i s) = UINT_MAX"
  using assms
  by (auto simp: reaches_claim_def worker_thread_def worker_body_def
      split: prod.splits sum.splits z3_exn.splits)

lemma claim_round:
  assumes "finished_id s = UINT_MAX" and "\<forall>i\<in>set sch. i < unat UINT_MAX"
  shows "winners ops sch s = take 1 (claimants ops sch s) \<and>
         (case claimants ops sch s of
            [] \<Rightarrow> finished_id (run_round ops sch s) = UINT_MAX
          | w # rest \<Rightarrow> finished_id (run_round ops sch s) = of_nat w \<and>
                        unat (finished_id (run_round ops sch s)) = w \<and>
                        done_flag (run_round ops sch s))"
  using assms
proof (induction sch arbitrary: s)
  case Nil
  then show ?case by (simp add: run_round_def)
next
  case (Cons i sch)
  let ?s1 = "worker_thread ops i s"
  from Cons.prems have i: "i < unat UINT_MAX" and rest: "\<forall>j\<in>set sch. j < unat UINT_MAX" by simp_all
  show ?case
  proof (cases "reaches_claim ops i s")
    case True
    from worker_thread_claim_step(1)[OF Cons.prems(1) True]
    have f: "finished_id ?s1 = of_nat i" and d: "done_flag ?s1" by blast+
    from f of_nat_index_neq_UINT_MAX[OF i] have ne: "finished_id ?s1 \<noteq> UINT_MAX" by simp
    from run_round_claimed_frame[OF ne, of ops sch]
    have "finished_id (run_round ops sch ?s1) = of_nat i" "winners ops sch ?s1 = []"
      using f by simp_all
    moreover have "done_flag (run_round ops sch ?s1)" using d by (rule run_round_done_mono)
    ultimately show ?thesis
      using True f ne Cons.prems(1) of_nat_index_neq_UINT_MAX(2)[OF i]
      by (simp add: run_round_Cons)
  next
    case False
    from worker_thread_claim_step(2)[OF Cons.prems(1) False]
    have f: "finished_id ?s1 = UINT_MAX" .
    from Cons.IH[OF f rest] False f Cons.prems(1) show ?thesis
      unfolding run_round_Cons by (simp split: list.splits)
  qed
qed

lemma claimants_append:
  "claimants ops (xs @ ys) s = claimants ops xs s @ claimants ops ys (run_round ops xs s)"
  by (induction xs arbitrary: s) (simp_all add: run_round_def)

lemma claim_result:
  assumes "finished_id s = UINT_MAX" and "\<forall>i\<in>set pre. i < unat UINT_MAX" and "w < unat UINT_MAX"
    and "claimants ops pre s = []" and "reaches_claim ops w (run_round ops pre s)"
  shows "\<exists>pctx r c. worker_check ops (run_round ops pre s) w = (pctx, Inr (r, c)) \<and>
           result (run_round ops (pre @ w # post) s) = r"
proof -
  let ?s1 = "run_round ops pre s"
  from claim_round[OF assms(1,2), of ops] assms(4) have u: "finished_id ?s1 = UINT_MAX" by simp
  from worker_thread_claim_step(1)[OF u assms(5)]
  obtain pctx r c where c: "worker_check ops ?s1 w = (pctx, Inr (r, c))"
    and r: "result (worker_thread ops w ?s1) = r" and f: "finished_id (worker_thread ops w ?s1) = of_nat w"
    by blast
  from f of_nat_index_neq_UINT_MAX(1)[OF assms(3)] have "finished_id (worker_thread ops w ?s1) \<noteq> UINT_MAX"
    by simp
  from run_round_claimed_frame[OF this, of ops post] r
  have "result (run_round ops (pre @ w # post) s) = r"
    by (simp add: run_round_append run_round_Cons)
  with c show ?thesis by blast
qed

subsection \<open>The winner and its context\<close>

lemma worker_thread_race_inv:
  "(finished_id s \<noteq> UINT_MAX \<longrightarrow> done_flag s) \<Longrightarrow>
     (finished_id (worker_thread ops i s) \<noteq> UINT_MAX \<longrightarrow> done_flag (worker_thread ops i s))"
  by (cases ops i s rule: worker_thread_cases) simp_all

lemma run_round_race_inv:
  "(finished_id s \<noteq> UINT_MAX \<longrightarrow> done_flag s) \<Longrightarrow>
     (finished_id (run_round ops sch s) \<noteq> UINT_MAX \<longrightarrow> done_flag (run_round ops sch s))"
proof (induction sch arbitrary: s)
  case Nil
  then show ?case by (simp add: run_round_def)
next
  case (Cons i sch)
  from Cons.IH[OF worker_thread_race_inv[OF Cons.prems]] show ?case by (simp add: run_round_Cons)
qed

lemma round_start_unclaimed:
  "round_start ops scheds s k = Some sk \<Longrightarrow> finished_id s = UINT_MAX \<Longrightarrow>
     finished_id sk = UINT_MAX"
proof (induction ops scheds s k rule: round_start.induct)
  case (3 ops sch scheds s k)
  from "3.prems"(1) have nd: "\<not> done_flag (run_round ops sch s)"
    and r: "round_start ops scheds (next_round ops (run_round ops sch s)) k = Some sk"
    by (auto simp: Let_def split: if_splits)
  from run_round_race_inv[of s ops sch] "3.prems"(2) nd
  have "finished_id (run_round ops sch s) = UINT_MAX" by auto
  then have "finished_id (next_round ops (run_round ops sch s)) = UINT_MAX" by simp
  from "3.IH"[OF refl nd r this] show ?case .
qed simp_all

lemma worker_thread_other:
  "j \<noteq> w \<Longrightarrow> pctxs (worker_thread ops j s) ! w = pctxs s ! w"
  by (cases ops j s rule: worker_thread_cases) simp_all

lemma run_round_other:
  "w \<notin> set sch \<Longrightarrow> pctxs (run_round ops sch s) ! w = pctxs s ! w"
proof (induction sch arbitrary: s)
  case Nil
  show ?case by (simp add: run_round_def)
next
  case (Cons j sch)
  then have "j \<noteq> w" "w \<notin> set sch" by auto
  from Cons.IH[OF this(2), of "worker_thread ops j s"] worker_thread_other[OF this(1), of ops s]
  show ?case by (simp add: run_round_Cons)
qed

lemma worker_asms_cong:
  assumes "pctxs s1 ! w = pctxs s ! w" "pasms s1 = pasms s" "num_rounds s1 = num_rounds s"
    "max_conflicts s1 = max_conflicts s"
  shows "worker_asms ops s1 w = worker_asms ops s w"
proof -
  from assms have "worker_limit s1 w = worker_limit s w" by (simp add: worker_limit_def)
  with assms show ?thesis by (simp add: worker_asms_def Let_def cong: if_cong)
qed

lemma claimants_decomp:
  "claimants ops sch s = w # rest \<Longrightarrow>
     \<exists>pre post. sch = pre @ w # post \<and> claimants ops pre s = [] \<and>
       reaches_claim ops w (run_round ops pre s)"
proof (induction sch arbitrary: s)
  case Nil
  then show ?case by simp
next
  case (Cons i sch)
  show ?case
  proof (cases "reaches_claim ops i s")
    case True
    with Cons.prems have "i = w" by simp
    with True have "i # sch = [] @ w # sch \<and> claimants ops [] s = [] \<and>
       reaches_claim ops w (run_round ops [] s)" by (simp add: run_round_def)
    then show ?thesis by blast
  next
    case False
    with Cons.prems have "claimants ops sch (worker_thread ops i s) = w # rest" by simp
    from Cons.IH[OF this] obtain pre post where
      "sch = pre @ w # post" "claimants ops pre (worker_thread ops i s) = []"
      "reaches_claim ops w (run_round ops pre (worker_thread ops i s))" by blast
    with False have "i # sch = (i # pre) @ w # post \<and> claimants ops (i # pre) s = [] \<and>
       reaches_claim ops w (run_round ops (i # pre) s)" by (simp add: run_round_Cons)
    then show ?thesis by blast
  qed
qed

lemma cube_refuted_step:
  assumes "worker_check ops s i = (pctx, Inr (l_false, c))" and "core_contains (m_unsat_core pctx) c"
  shows "worker_thread ops i s = set_pctx i (assert_expr (mk_not (mk_and (m_unsat_core pctx))) pctx) s"
  using assms by (simp add: worker_thread_def worker_body_def)

lemma worker_check_cong:
  assumes "pctxs s1 ! w = pctxs s ! w" "pasms s1 = pasms s" "num_rounds s1 = num_rounds s"
    "max_conflicts s1 = max_conflicts s"
  shows "worker_check ops s1 w = worker_check ops s w"
proof -
  from assms have "worker_limit s1 w = worker_limit s w" by (simp add: worker_limit_def)
  with worker_asms_cong[OF assms, of ops] show ?thesis by (simp only: worker_check_def)
qed

text \<open>
  The winner of a round: its context after the round is the one its check returned
  on the context and the assumptions it had when the round started.
\<close>

lemma winner_check:
  assumes inv: "relay_inv sk" and un: "finished_id sk = UINT_MAX"
    and d: "distinct sch" and b: "\<forall>i\<in>set sch. i < num_threads sk"
    and small: "num_threads sk \<le> unat UINT_MAX"
    and f: "finished_id (run_round ops sch sk) \<noteq> UINT_MAX"
  shows "unat (finished_id (run_round ops sch sk)) < num_threads sk \<and>
         worker_check ops sk (unat (finished_id (run_round ops sch sk))) =
           (pctxs (run_round ops sch sk) ! unat (finished_id (run_round ops sch sk)),
            Inr (result (run_round ops sch sk), worker_cube ops sk (unat (finished_id (run_round ops sch sk))))) \<and>
         \<not> (result (run_round ops sch sk) = l_false \<and>
            core_contains
              (m_unsat_core (pctxs (run_round ops sch sk) ! unat (finished_id (run_round ops sch sk))))
              (worker_cube ops sk (unat (finished_id (run_round ops sch sk)))))"
proof -
  let ?s' = "run_round ops sch sk"
  from b small have b': "\<forall>i\<in>set sch. i < unat UINT_MAX" by fastforce
  from claim_round[OF un b', of ops] f obtain w rest where
    cl: "claimants ops sch sk = w # rest" and w: "unat (finished_id ?s') = w"
    by (cases "claimants ops sch sk") auto
  from claimants_decomp[OF cl] obtain pre post where
    sch: "sch = pre @ w # post" and none: "claimants ops pre sk = []"
    and rc: "reaches_claim ops w (run_round ops pre sk)" by blast
  let ?s1 = "run_round ops pre sk"
  let ?s2 = "worker_thread ops w ?s1"
  from sch d have wpre: "w \<notin> set pre" and wpost: "w \<notin> set post" by auto
  from sch b have wl: "w < num_threads sk" by simp
  from sch b' have bpre: "\<forall>i\<in>set pre. i < unat UINT_MAX" and wu: "w < unat UINT_MAX" by simp_all
  from claim_round[OF un bpre, of ops] none have u1: "finished_id ?s1 = UINT_MAX" by simp
  from worker_thread_claim_step(1)[OF u1 rc] obtain pctx r' c where
    chk: "worker_check ops ?s1 w = (pctx, Inr (r', c))" and res: "result ?s2 = r'"
    and px: "pctxs ?s2 = (pctxs ?s1)[w := pctx]" and fin: "finished_id ?s2 = of_nat w"
    and nc: "\<not> (r' = l_false \<and> core_contains (m_unsat_core pctx) c)" by blast
  have s': "?s' = run_round ops post ?s2" unfolding sch by (simp add: run_round_append run_round_Cons)
  from fin of_nat_index_neq_UINT_MAX(1)[OF wu] have "finished_id ?s2 \<noteq> UINT_MAX" by simp
  from run_round_claimed_frame[OF this, of ops post] res s' have r': "result ?s' = r'" by simp
  from inv wl have "w < length (pctxs ?s1)" by (simp add: relay_inv_def)
  with px have "pctxs ?s2 ! w = pctx" by simp
  with run_round_other[OF wpost, of ops ?s2] s' have core: "pctxs ?s' ! w = pctx" by simp
  from run_round_other[OF wpre, of ops sk] have same: "worker_check ops ?s1 w = worker_check ops sk w"
    by (intro worker_check_cong) simp_all
  from chk same have "worker_cube ops sk w = c"
    by (auto simp: worker_check_def worker_cube_def split: sum.splits prod.splits)
  with chk same core r' nc w wl show ?thesis by simp
qed

text \<open>
  When the solver's cores are made of the assumptions it was given, a core that
  passes the test of line 126 is made of the worker's persistent assumptions.
\<close>

lemma worker_check_core:
  assumes "worker_check ops s w = (pctx, Inr (l_false, cb))"
    and "\<not> core_contains (m_unsat_core pctx) cb"
    and "\<forall>cx as cx'. check ops cx as = (cx', Inr l_false) \<longrightarrow> set (m_unsat_core cx') \<subseteq> set as"
  shows "set (m_unsat_core pctx) \<subseteq> set (pasms s ! w)"
proof -
  from assms(1) obtain lasms where a: "worker_asms ops s w = Inr (lasms, cb)"
    and c: "check ops (worker_limit s w) lasms = (pctx, Inr l_false)"
    by (auto simp: worker_check_def split: sum.splits prod.splits)
  from a have "lasms = pasms s ! w @ (case cb of None \<Rightarrow> [] | Some e \<Rightarrow> [e])"
    by (auto simp: worker_asms_def cube_def Let_def split: if_splits sum.splits option.splits)
  moreover from assms(3) c have "set (m_unsat_core pctx) \<subseteq> set lasms" by blast
  ultimately show ?thesis using assms(2) by (auto simp: core_contains_def split: option.splits)
qed

lemma init_state_pasms:
  "w < unat (m_threads c) \<Longrightarrow>
     pasms (init_state ops c asms) ! w = map (translate ops (Worker w) Primary) asms"
  by (simp add: init_state_def Let_def)

lemma finish_unsat:
  assumes "finished_id s \<noteq> UINT_MAX" and "result s = l_false"
  shows "snd (finish ops s) = Inr l_false"
    and "m_unsat_core (fst (finish ops s)) =
           m_unsat_core (ctx s) @
           map (translate ops (Worker (unat (finished_id s))) Primary)
             (m_unsat_core (pctxs s ! unat (finished_id s)))"
  using assms by (simp_all add: finish_def Let_def)

lemma num_threads_small: "num_threads (init_state ops c asms) \<le> unat UINT_MAX"
proof -
  have "unat (m_threads c) < 2 ^ LENGTH(32)" by (rule unsigned_less)
  then show ?thesis by (simp add: UINT_MAX_def)
qed

subsection \<open>A round that ends the loop\<close>

lemma captured_raise:
  "captured s ex \<Longrightarrow>
     (case ex_kind s of ERROR_EX \<Rightarrow> z3_error (error_code s)
      | DEFAULT_EX \<Rightarrow> default_exception (ex_msg s)) = ex"
  by (cases ex) (simp_all add: captured_def)

lemma round_start_not_done:
  "round_start ops scheds s k = Some sk \<Longrightarrow> \<not> done_flag s \<Longrightarrow> \<not> done_flag sk"
proof (induction ops scheds s k rule: round_start.induct)
  case (3 ops sch scheds s k)
  then show ?case by (auto simp: Let_def split: if_splits)
qed simp_all

text \<open>
  A round that sets \<^verbatim>\<open>done\<close> and leaves \<^verbatim>\<open>finished_id\<close> unclaimed has had a worker
  whose \<^verbatim>\<open>try\<close> block threw.
\<close>

lemma done_without_winner:
  assumes "\<not> done_flag s" and "finished_id s = UINT_MAX" and "\<forall>i\<in>set sch. i < unat UINT_MAX"
    and "done_flag (run_round ops sch s)" and "finished_id (run_round ops sch s) = UINT_MAX"
  shows "faults ops sch s \<noteq> []"
  using assms
proof (induction sch arbitrary: s)
  case Nil
  then show ?case by (simp add: run_round_def)
next
  case (Cons i sch)
  let ?s1 = "worker_thread ops i s"
  from Cons.prems(3) have i: "i < unat UINT_MAX" and rest: "\<forall>j\<in>set sch. j < unat UINT_MAX" by simp_all
  show ?case
  proof (cases "snd (worker_body ops i s)")
    case (Some ex)
    then show ?thesis by simp
  next
    case None
    have u1: "finished_id ?s1 = UINT_MAX"
    proof (rule ccontr)
      assume "finished_id ?s1 \<noteq> UINT_MAX"
      from run_round_claimed_frame[OF this, of ops sch] this Cons.prems(5) show False
        by (simp add: run_round_Cons)
    qed
    have "\<not> reaches_claim ops i s"
    proof
      assume "reaches_claim ops i s"
      from worker_thread_claim_step(1)[OF Cons.prems(2) this] of_nat_index_neq_UINT_MAX(1)[OF i] u1
      show False by simp
    qed
    with None Cons.prems(2) have "done_flag ?s1 = done_flag s"
      by (auto simp: reaches_claim_def worker_thread_def worker_body_def
          split: prod.splits sum.splits if_splits)
    with Cons.prems(1) have nd: "\<not> done_flag ?s1" by simp
    from Cons.IH[OF nd u1 rest] Cons.prems(4,5) have "faults ops sch ?s1 \<noteq> []"
      by (simp add: run_round_Cons)
    then show ?thesis by simp
  qed
qed

lemma init_state_race [simp]:
  "finished_id (init_state ops c asms) = UINT_MAX" "\<not> done_flag (init_state ops c asms)"
  by (simp_all add: init_state_def Let_def)

section \<open>C1: the outcome of the call\<close>

text \<open>
  C1, as the code has it. When round \<open>k\<close> is reached and sets \<^verbatim>\<open>done\<close>, the call ends
  there with one outcome. If no winner was recorded (\<^verbatim>\<open>finished_id\<close> is still
  \<^verbatim>\<open>UINT_MAX\<close>) it throws exactly one exception built from the capture: \<^verbatim>\<open>z3_error\<close>
  with the captured code when the captured kind is \<^verbatim>\<open>ERROR_EX\<close>, otherwise
  \<^verbatim>\<open>default_exception\<close> with the captured message; with worker indices below
  \<^verbatim>\<open>UINT_MAX\<close>, as they are, some worker of that round did throw, and the exception
  the call throws is that of the last of them in the order the handlers ran.
  Otherwise the call returns the result the winner recorded, which
  is sat, unsat or unknown: the value returned without an exception is not always
  definitive.
\<close>

theorem call_outcome:
  assumes "k < length scheds"
    and "round_start ops scheds (init_state ops c asms) k = Some sk"
    and "done_flag (run_round ops (scheds ! k) sk)"
  shows "(\<exists>c'. parallel_operator ops scheds c asms =
           Some (c', let s' = run_round ops (scheds ! k) sk in
                     if finished_id s' = UINT_MAX then
                       Inl (case ex_kind s' of ERROR_EX \<Rightarrow> z3_error (error_code s')
                            | DEFAULT_EX \<Rightarrow> default_exception (ex_msg s'))
                     else Inr (result s'))) \<and>
         ((\<forall>i\<in>set (scheds ! k). i < unat UINT_MAX) \<and>
          finished_id (run_round ops (scheds ! k) sk) = UINT_MAX \<longrightarrow>
            faults ops (scheds ! k) sk \<noteq> [] \<and>
            (\<exists>c'. parallel_operator ops scheds c asms =
               Some (c', Inl (last (faults ops (scheds ! k) sk)))))"
proof -
  let ?s' = "run_round ops (scheds ! k) sk"
  have "round_loop ops scheds (init_state ops c asms) = Some ?s'"
    unfolding round_loop_iff using assms by blast
  then have p: "parallel_operator ops scheds c asms = Some (fst (finish ops ?s'), snd (finish ops ?s'))"
    by (simp add: parallel_operator_def)
  then have 1: "\<exists>c'. parallel_operator ops scheds c asms =
           Some (c', let s' = ?s' in
                     if finished_id s' = UINT_MAX then
                       Inl (case ex_kind s' of ERROR_EX \<Rightarrow> z3_error (error_code s')
                            | DEFAULT_EX \<Rightarrow> default_exception (ex_msg s'))
                     else Inr (result s'))"
    unfolding finish_outcome Let_def by blast
  have 2: "faults ops (scheds ! k) sk \<noteq> [] \<and>
            (\<exists>c'. parallel_operator ops scheds c asms =
               Some (c', Inl (last (faults ops (scheds ! k) sk))))"
    if b: "\<forall>i\<in>set (scheds ! k). i < unat UINT_MAX" and u: "finished_id ?s' = UINT_MAX"
  proof -
    from round_start_not_done[OF assms(2)] have nd: "\<not> done_flag sk" by simp
    from round_start_unclaimed[OF assms(2)] have un: "finished_id sk = UINT_MAX" by simp
    from done_without_winner[OF nd un b assms(3) u] have f: "faults ops (scheds ! k) sk \<noteq> []" .
    from faults_last[OF f] have "captured ?s' (last (faults ops (scheds ! k) sk))" by simp
    from captured_raise[OF this] u have "snd (finish ops ?s') = Inl (last (faults ops (scheds ! k) sk))"
      by (simp add: finish_outcome)
    with p f show ?thesis by simp
  qed
  from 1 2 show ?thesis by blast
qed

text \<open>
  C1 as stated fails: a worker whose check returns \<^verbatim>\<open>l_undef\<close> with fewer conflicts
  than the budget (3 against 400) passes both early returns, claims the race, and
  the call returns \<^verbatim>\<open>l_undef\<close> without an exception.
\<close>

theorem call_outcome_counterexample:
  "map_option snd (parallel_operator (demo_ops check_unknown) [[0, 1]] demo_ctx []) = Some (Inr l_undef)"
  by (simp add: parallel_operator_def finish_def collect_all_statistics_def check_unknown_def demo_simps)

text \<open>The theorem at a call whose two workers both fail in round 0.\<close>

theorem call_outcome_witness:
  "faults (demo_ops check_faulty) [0, 1] (init_state (demo_ops check_faulty) demo_ctx []) =
     [z3_error 7, z3_exception ''late''] \<and>
   map_option snd (parallel_operator (demo_ops check_faulty) [[0, 1]] demo_ctx []) =
     Some (Inl (z3_exception ''late''))"
proof -
  let ?ops = "demo_ops check_faulty"
  let ?s0 = "init_state ?ops demo_ctx []"
  have a: "(0::nat) < length [[0, 1::nat]]" by simp
  have b: "round_start ?ops [[0, 1]] ?s0 0 = Some ?s0" by simp
  have c: "done_flag (run_round ?ops ([[0, 1]] ! 0) ?s0)"
    by (simp add: check_faulty_def demo_simps)
  have d: "\<forall>i\<in>set ([[0, 1]] ! 0). i < unat UINT_MAX" by (simp add: UINT_MAX_def)
  have e: "finished_id (run_round ?ops ([[0, 1]] ! 0) ?s0) = UINT_MAX"
    by (simp add: check_faulty_def demo_simps)
  have f: "faults ?ops [0, 1] ?s0 = [z3_error 7, z3_exception ''late'']"
    by (simp add: check_faulty_def demo_simps)
  from call_outcome [OF a b c] d e
  obtain c' where "parallel_operator ?ops [[0, 1]] demo_ctx [] = Some (c', Inl (last (faults ?ops ([[0, 1]] ! 0) ?s0)))"
    by blast
  then have "map_option snd (parallel_operator ?ops [[0, 1]] demo_ctx []) = Some (Inl (last (faults ?ops [0, 1] ?s0)))"
    by simp
  then show ?thesis unfolding f by simp
qed

section \<open>C2: the exception capture\<close>

text \<open>
  C2, as the code has it. A worker whose \<^verbatim>\<open>try\<close> block throws writes its classified
  payload into the capture whatever the capture holds: the kind, and the code of a
  \<^verbatim>\<open>z3_error\<close> or the message of another \<^verbatim>\<open>z3_exception\<close>; the handlers test nothing.
  So after a round in which workers failed, the capture is that of the last of them
  in the order the handlers ran: the last write wins.
\<close>

theorem capture_last_write_wins:
  "(snd (worker_body ops i s) = Some ex \<longrightarrow>
      captured (worker_thread ops i s) ex \<and> done_flag (worker_thread ops i s)) \<and>
   (faults ops sch s \<noteq> [] \<longrightarrow>
      captured (run_round ops sch s) (last (faults ops sch s)) \<and> done_flag (run_round ops sch s))"
  using worker_thread_fault faults_last by blast

text \<open>
  C2 as stated fails: worker 0 throws \<^verbatim>\<open>z3_error(7)\<close>, then worker 1 throws a
  \<^verbatim>\<open>z3_exception\<close>. The capture of worker 0 does not survive: the kind and the
  message are those of worker 1.
\<close>

theorem capture_first_write_counterexample:
  "faults (demo_ops check_faulty) [0, 1] (init_state (demo_ops check_faulty) demo_ctx []) =
     [z3_error 7, z3_exception ''late''] \<and>
   captured (worker_thread (demo_ops check_faulty) 0 (init_state (demo_ops check_faulty) demo_ctx []))
     (z3_error 7) \<and>
   \<not> captured (run_round (demo_ops check_faulty) [0, 1] (init_state (demo_ops check_faulty) demo_ctx []))
     (z3_error 7) \<and>
   captured (run_round (demo_ops check_faulty) [0, 1] (init_state (demo_ops check_faulty) demo_ctx []))
     (z3_exception ''late'')"
  by (simp add: captured_def check_faulty_def demo_simps)

text \<open>The theorem at that round.\<close>

theorem capture_last_write_wins_witness:
  "faults (demo_ops check_faulty) [0, 1] (init_state (demo_ops check_faulty) demo_ctx []) \<noteq> [] \<and>
   snd (worker_body (demo_ops check_faulty) 1 (init_state (demo_ops check_faulty) demo_ctx [])) =
     Some (z3_exception ''late'') \<and>
   ex_msg (worker_thread (demo_ops check_faulty) 1 (init_state (demo_ops check_faulty) demo_ctx [])) = ''late'' \<and>
   ex_kind (run_round (demo_ops check_faulty) [0, 1] (init_state (demo_ops check_faulty) demo_ctx [])) = DEFAULT_EX"
proof -
  let ?ops = "demo_ops check_faulty"
  let ?s0 = "init_state ?ops demo_ctx []"
  have f: "faults ?ops [0, 1] ?s0 = [z3_error 7, z3_exception ''late'']"
    by (simp add: check_faulty_def demo_simps)
  have b: "snd (worker_body ?ops 1 ?s0) = Some (z3_exception ''late'')"
    by (simp add: check_faulty_def demo_simps)
  have ne: "faults ?ops [0, 1] ?s0 \<noteq> []" unfolding f by simp
  note inst = capture_last_write_wins [of ?ops 1 ?s0 "z3_exception ''late''" "[0, 1]"]
  from inst b have "captured (worker_thread ?ops 1 ?s0) (z3_exception ''late'')" by blast
  then have 1: "ex_msg (worker_thread ?ops 1 ?s0) = ''late''" by (simp add: captured_def)
  from inst ne have "captured (run_round ?ops [0, 1] ?s0) (last (faults ?ops [0, 1] ?s0))" by blast
  then have 2: "ex_kind (run_round ?ops [0, 1] ?s0) = DEFAULT_EX" unfolding f by (simp add: captured_def)
  from ne b 1 2 show ?thesis by blast
qed

section \<open>C3: one winner\<close>

text \<open>
  C3. Every round of a call starts with \<^verbatim>\<open>finished_id\<close> unclaimed. Whatever the schedule and however
  many workers get to the critical section, at most one worker changes
  \<^verbatim>\<open>finished_id\<close>: the first of them in the order of the critical sections. After the
  round \<^verbatim>\<open>finished_id\<close> is that worker's index, \<^verbatim>\<open>done\<close> is set and \<^verbatim>\<open>result\<close> is the value
  its check returned; with no such worker \<^verbatim>\<open>finished_id\<close> stays unclaimed. Once
  \<^verbatim>\<open>finished_id\<close> is claimed, no worker thread changes \<^verbatim>\<open>finished_id\<close> or \<^verbatim>\<open>result\<close> or
  clears \<^verbatim>\<open>done\<close>.
\<close>

theorem exactly_one_winner:
  "(\<forall>k sk. round_start ops scheds (init_state ops c asms) k = Some sk \<longrightarrow> finished_id sk = UINT_MAX) \<and>
   (finished_id s = UINT_MAX \<and> (\<forall>i\<in>set sch. i < unat UINT_MAX) \<longrightarrow>
      winners ops sch s = take 1 (claimants ops sch s) \<and>
      (case claimants ops sch s of
         [] \<Rightarrow> finished_id (run_round ops sch s) = UINT_MAX
       | w # rest \<Rightarrow> finished_id (run_round ops sch s) = of_nat w \<and>
                     unat (finished_id (run_round ops sch s)) = w \<and>
                     done_flag (run_round ops sch s)) \<and>
      (\<forall>pre w post. sch = pre @ w # post \<and> claimants ops pre s = [] \<and>
           reaches_claim ops w (run_round ops pre s) \<longrightarrow>
         (\<exists>pctx r cb. worker_check ops (run_round ops pre s) w = (pctx, Inr (r, cb)) \<and>
            result (run_round ops sch s) = r))) \<and>
   (\<forall>j s'. finished_id s' \<noteq> UINT_MAX \<longrightarrow>
      finished_id (worker_thread ops j s') = finished_id s' \<and>
      result (worker_thread ops j s') = result s' \<and>
      (done_flag s' \<longrightarrow> done_flag (worker_thread ops j s')))"
proof -
  have start: "finished_id sk = UINT_MAX" if "round_start ops scheds (init_state ops c asms) k = Some sk" for k sk
    using round_start_unclaimed[OF that] by simp
  have round: "winners ops sch s = take 1 (claimants ops sch s) \<and>
      (case claimants ops sch s of
         [] \<Rightarrow> finished_id (run_round ops sch s) = UINT_MAX
       | w # rest \<Rightarrow> finished_id (run_round ops sch s) = of_nat w \<and>
                     unat (finished_id (run_round ops sch s)) = w \<and>
                     done_flag (run_round ops sch s)) \<and>
      (\<forall>pre w post. sch = pre @ w # post \<and> claimants ops pre s = [] \<and>
           reaches_claim ops w (run_round ops pre s) \<longrightarrow>
         (\<exists>pctx r cb. worker_check ops (run_round ops pre s) w = (pctx, Inr (r, cb)) \<and>
            result (run_round ops sch s) = r))"
    if un: "finished_id s = UINT_MAX" and b: "\<forall>i\<in>set sch. i < unat UINT_MAX"
  proof -
    have "\<exists>pctx r cb. worker_check ops (run_round ops pre s) w = (pctx, Inr (r, cb)) \<and>
               result (run_round ops sch s) = r"
      if "sch = pre @ w # post" "claimants ops pre s = []" "reaches_claim ops w (run_round ops pre s)"
      for pre w post
    proof -
      from b that(1) have "\<forall>i\<in>set pre. i < unat UINT_MAX" "w < unat UINT_MAX" by simp_all
      from claim_result[OF un this that(2,3), of post] that(1) show ?thesis by simp
    qed
    with claim_round[OF un b, of ops] show ?thesis by blast
  qed
  from start round worker_thread_claimed_frame show ?thesis by blast
qed

text \<open>
  The theorem at three workers that all answer sat, with the critical sections in
  the order 1, 0, 2: worker 1 is recorded, the other two results are dropped.
\<close>

theorem exactly_one_winner_witness:
  "claimants (demo_ops check_sat_no_model) [1, 0, 2] (init_state (demo_ops check_sat_no_model) demo_ctx3 []) = [1, 0, 2] \<and>
   winners (demo_ops check_sat_no_model) [1, 0, 2] (init_state (demo_ops check_sat_no_model) demo_ctx3 []) = [1] \<and>
   finished_id (run_round (demo_ops check_sat_no_model) [1, 0, 2] (init_state (demo_ops check_sat_no_model) demo_ctx3 [])) = 1 \<and>
   result (run_round (demo_ops check_sat_no_model) [1, 0, 2] (init_state (demo_ops check_sat_no_model) demo_ctx3 [])) = l_true"
proof -
  let ?ops = "demo_ops check_sat_no_model"
  let ?s0 = "init_state ?ops demo_ctx3 []"
  note inst = exactly_one_winner [of ?ops "[[1, 0, 2]]" demo_ctx3 "[]" ?s0 "[1, 0, 2]"]
  have "round_start ?ops [[1, 0, 2]] ?s0 0 = Some ?s0" by simp
  with inst have a: "finished_id ?s0 = UINT_MAX" by blast
  have b: "\<forall>i\<in>set [1, 0, 2]. i < unat UINT_MAX" by (simp add: UINT_MAX_def)
  have c: "claimants ?ops [1, 0, 2] ?s0 = [1, 0, 2]"
    by (simp add: reaches_claim_def check_sat_no_model_def demo_ctx3_def demo_simps)
  from inst a b have "winners ?ops [1, 0, 2] ?s0 = take 1 (claimants ?ops [1, 0, 2] ?s0)" by blast
  then have w: "winners ?ops [1, 0, 2] ?s0 = [1]" unfolding c by simp
  from inst a b have "case claimants ?ops [1, 0, 2] ?s0 of
            [] \<Rightarrow> finished_id (run_round ?ops [1, 0, 2] ?s0) = UINT_MAX
          | w # rest \<Rightarrow> finished_id (run_round ?ops [1, 0, 2] ?s0) = of_nat w \<and>
                        unat (finished_id (run_round ?ops [1, 0, 2] ?s0)) = w \<and>
                        done_flag (run_round ?ops [1, 0, 2] ?s0)" by blast
  then have f: "finished_id (run_round ?ops [1, 0, 2] ?s0) = 1" unfolding c by simp
  have pre: "[1, 0, 2] = [] @ 1 # [0, 2::nat]" "claimants ?ops [] ?s0 = []"
    "reaches_claim ?ops 1 (run_round ?ops [] ?s0)"
    by (simp_all add: reaches_claim_def check_sat_no_model_def demo_ctx3_def demo_simps)
  from inst a b pre obtain pctx r cb where
    "worker_check ?ops (run_round ?ops [] ?s0) 1 = (pctx, Inr (r, cb))" "result (run_round ?ops [1, 0, 2] ?s0) = r"
    by blast
  moreover have "snd (worker_check ?ops (run_round ?ops [] ?s0) 1) = Inr (l_true, None)"
    by (simp add: check_sat_no_model_def demo_ctx3_def demo_simps)
  ultimately have r: "result (run_round ?ops [1, 0, 2] ?s0) = l_true" by simp
  from c w f r show ?thesis by blast
qed

section \<open>C4: what the relay passes on\<close>

text \<open>
  C4, as the code has it. \<^verbatim>\<open>unit_lim[i]\<close> is both the index from which the relay reads
  worker \<open>i\<close>'s log and the index from which it asserts the trail into worker \<open>i\<close>, and
  the relay sets it to the length of the trail. For every round \<open>k\<close> without a winner:
  round \<open>k + 1\<close> starts in the state the relay leaves; every fact at an index of
  worker \<open>i\<close>'s log at or beyond \<^verbatim>\<open>unit_lim[i]\<close> is in the trail, translated into the
  primary manager, and the trail has no repetition; the relay asserts into every
  worker \<open>w\<close> the translations of the trail from index \<^verbatim>\<open>unit_lim[w]\<close> on; and over
  the whole call so far each worker has been handed the trail, every fact once.
  Nothing is said of a log entry below the offset: the relay does not read it.
\<close>

theorem relay_reaches_every_worker:
  assumes "k < length scheds"
    and "round_start ops scheds (init_state ops c asms) k = Some sk"
    and "\<not> done_flag (run_round ops (scheds ! k) sk)"
  shows "let se = run_round ops (scheds ! k) sk; s' = next_round ops se in
         round_start ops scheds (init_state ops c asms) (Suc k) = Some s' \<and>
         distinct (unit_trail s') \<and>
         (\<forall>i<num_threads sk. set (read_units ops se i) \<subseteq> set (unit_trail s')) \<and>
         (\<forall>w<num_threads sk.
            m_asserted_formulas (pctxs s' ! w) =
              m_asserted_formulas (pop_to_base_lvl ops (pctxs se ! w)) @
              map (translate ops Primary (Worker w)) (relay_asserted ops se w)) \<and>
         (\<forall>w<num_threads sk. relayed ops scheds (init_state ops c asms) w (Suc k) = unit_trail s')"
proof -
  let ?s0 = "init_state ops c asms"
  let ?se = "run_round ops (scheds ! k) sk"
  let ?s' = "next_round ops ?se"
  have r: "round_start ops scheds ?s0 (Suc k) = Some ?s'"
    unfolding round_start_Suc using assms by simp
  from round_start_relay_inv[OF assms(2) init_state_relay_inv] have "relay_inv sk" .
  then have inve: "relay_inv ?se" by (rule run_round_relay_inv)
  then have inv': "relay_inv ?s'" by (rule next_round_relay_inv)
  from inve have l: "num_threads ?se \<le> length (pctxs ?se)" "num_threads ?se \<le> length (unit_lim ?se)"
    by (simp_all add: relay_inv_def)
  from inv' have d: "distinct (unit_trail ?s')" and su: "set (unit_trail ?s') = unit_set ?s'"
    by (simp_all add: relay_inv_def trail_inv_def)
  have reads: "set (read_units ops ?se i) \<subseteq> set (unit_trail ?s')" if "i < num_threads sk" for i
    using collect_units_reads[OF l(1), of i ops] that su by simp
  have asserted: "m_asserted_formulas (pctxs ?s' ! w) =
              m_asserted_formulas (pop_to_base_lvl ops (pctxs ?se ! w)) @
              map (translate ops Primary (Worker w)) (relay_asserted ops ?se w)" if "w < num_threads sk" for w
    using collect_units_workers(1)[OF l, of w ops] that by simp
  have hist: "relayed ops scheds ?s0 w (Suc k) = unit_trail ?s'" if "w < num_threads sk" for w
  proof -
    from round_start_frame[OF assms(2)] that have "w < num_threads ?s0" by simp
    from relayed_trail[OF r init_state_relay_inv this] show ?thesis by simp
  qed
  from r d reads asserted hist show ?thesis unfolding Let_def by blast
qed

text \<open>
  C4 as stated fails. After the first relay the trail has three facts and both
  offsets are 3. Worker 0's log has one entry at the end of round 0 and two at the
  end of round 1: \<open>Atom 2\<close> is new, at index 1. The second relay reads worker 0's log
  from index 3, so \<open>Atom 2\<close> is neither in the trail nor asserted into worker 1 when
  round 2 starts.
\<close>

theorem relay_skips_new_fact_counterexample:
  "round_start (demo_ops check_units) [[0, 1], [1, 0]] units_s0 2 = Some units_s2 \<and>
   worker_log (demo_ops check_units) units_e0 0 = [Atom 0] \<and>
   worker_log (demo_ops check_units) units_e1 0 = [Atom 0, Atom 2] \<and>
   unit_lim units_e1 ! 0 = 3 \<and>
   Atom 2 \<notin> set (unit_trail units_s2) \<and>
   Atom 2 \<notin> set (m_asserted_formulas (pctxs units_s2 ! 1))"
proof -
  have "round_start (demo_ops check_units) [[0, 1], [1, 0]] units_s0 2 = Some units_s2"
    using units_round_2 by (simp only: numeral_2_eq_2)
  moreover have "worker_log (demo_ops check_units) units_e0 0 = [Atom 0]"
    by (simp add: units_simps demo_simps relay_simps)
  moreover have "worker_log (demo_ops check_units) units_e1 0 = [Atom 0, Atom 2]"
    by (simp add: units_simps demo_simps relay_simps)
  moreover have "unit_lim units_e1 ! 0 = 3"
    by (simp add: units_simps demo_simps relay_simps)
  moreover have "unit_trail units_s2 = [Atom 0, Atom 1, Not (Atom 3)]"
    by (simp add: units_simps demo_simps relay_simps)
  moreover have "m_asserted_formulas (pctxs units_s2 ! 1) = [Atom 0, Atom 1, Not (Atom 3)]"
    by (simp add: units_simps demo_simps relay_simps)
  ultimately show ?thesis by simp
qed

text \<open>The theorem at round 0 of the same call.\<close>

theorem relay_reaches_every_worker_witness:
  "round_start (demo_ops check_units) [[0, 1], [1, 0]] (init_state (demo_ops check_units) demo_ctx []) 1 =
     Some units_s1 \<and>
   read_units (demo_ops check_units) units_e0 1 = [Atom 1, Not (Atom 3)] \<and>
   unit_trail units_s1 = [Atom 0, Atom 1, Not (Atom 3)] \<and>
   m_asserted_formulas (pctxs units_s1 ! 0) = [Atom 0, Atom 1, Not (Atom 3)] \<and>
   relayed (demo_ops check_units) [[0, 1], [1, 0]] (init_state (demo_ops check_units) demo_ctx []) 0 1 =
     [Atom 0, Atom 1, Not (Atom 3)]"
proof -
  let ?ops = "demo_ops check_units"
  let ?scheds = "[[0, 1], [1, 0::nat]]"
  let ?s0 = "init_state ?ops demo_ctx []"
  have a: "0 < length ?scheds" by simp
  have b: "round_start ?ops ?scheds ?s0 0 = Some ?s0" by simp
  have c: "\<not> done_flag (run_round ?ops (?scheds ! 0) ?s0)"
    by (simp add: check_units_def demo_simps)
  have e: "run_round ?ops (?scheds ! 0) ?s0 = units_e0" by (simp add: units_e0_def units_s0_def)
  have n: "(0::nat) < num_threads ?s0" by (simp add: demo_ctx_def)
  note inst = relay_reaches_every_worker [OF a b c, unfolded Let_def e, folded units_s1_def]
  from inst have 1: "round_start ?ops ?scheds ?s0 1 = Some units_s1" by simp
  from inst n have 2: "relayed ?ops ?scheds ?s0 0 (Suc 0) = unit_trail units_s1" by blast
  from inst n have 3: "m_asserted_formulas (pctxs units_s1 ! 0) =
      m_asserted_formulas (pop_to_base_lvl ?ops (pctxs units_e0 ! 0)) @
      map (translate ?ops Primary (Worker 0)) (relay_asserted ?ops units_e0 0)" by blast
  have 4: "m_asserted_formulas (pop_to_base_lvl ?ops (pctxs units_e0 ! 0)) @
      map (translate ?ops Primary (Worker 0)) (relay_asserted ?ops units_e0 0) = [Atom 0, Atom 1, Not (Atom 3)]"
    by (simp add: units_simps demo_simps relay_simps)
  have 5: "read_units ?ops units_e0 1 = [Atom 1, Not (Atom 3)]"
    by (simp add: units_simps demo_simps relay_simps)
  from 1 2 3 4 5 units_s1_trail show ?thesis by simp
qed

section \<open>C5: cores that mention the cube\<close>

lemmas cube_simps = cube_s1_def check_cube_def demo_ops_cube_def worker_cube_def

text \<open>
  C5. A worker whose check returns \<^verbatim>\<open>l_false\<close> with a core that contains its cube
  asserts the negation of the conjunction of that core into its own context and
  changes nothing else: it does not claim the race. And when a call returns
  \<^verbatim>\<open>l_false\<close>, the core it appends to the primary context's \<^verbatim>\<open>m_unsat_core\<close> is the
  translation of the winner's core, which does not contain the cube the winner was
  given in that round; if the solver's cores are always made of the assumptions it
  was given, the winner's core is made of the caller's assumptions as set-up
  translated them. The workers of the last round are taken to be distinct and below
  \<^verbatim>\<open>num_threads\<close>, as the threads of a round are.
\<close>

theorem cube_core_never_returned:
  "(\<forall>pctx cb. worker_check ops s i = (pctx, Inr (l_false, cb)) \<and> core_contains (m_unsat_core pctx) cb \<longrightarrow>
      worker_thread ops i s =
        set_pctx i (assert_expr (mk_not (mk_and (m_unsat_core pctx))) pctx) s) \<and>
   (\<forall>k sk. k < length scheds \<and> round_start ops scheds (init_state ops c asms) k = Some sk \<and>
        distinct (scheds ! k) \<and> (\<forall>j\<in>set (scheds ! k). j < num_threads sk) \<and>
        finished_id (run_round ops (scheds ! k) sk) \<noteq> UINT_MAX \<and>
        result (run_round ops (scheds ! k) sk) = l_false \<longrightarrow>
      (let s' = run_round ops (scheds ! k) sk; w = unat (finished_id s') in
       \<exists>c'. parallel_operator ops scheds c asms = Some (c', Inr l_false) \<and>
            m_unsat_core c' =
              m_unsat_core c @ map (translate ops (Worker w) Primary) (m_unsat_core (pctxs s' ! w)) \<and>
            \<not> core_contains (m_unsat_core (pctxs s' ! w)) (worker_cube ops sk w) \<and>
            ((\<forall>cx as cx'. check ops cx as = (cx', Inr l_false) \<longrightarrow> set (m_unsat_core cx') \<subseteq> set as) \<longrightarrow>
               set (m_unsat_core (pctxs s' ! w)) \<subseteq> set (map (translate ops (Worker w) Primary) asms))))"
proof -
  have call: "\<exists>c'. parallel_operator ops scheds c asms = Some (c', Inr l_false) \<and>
            m_unsat_core c' =
              m_unsat_core c @
              map (translate ops (Worker (unat (finished_id (run_round ops (scheds ! k) sk)))) Primary)
                (m_unsat_core (pctxs (run_round ops (scheds ! k) sk) ! unat (finished_id (run_round ops (scheds ! k) sk)))) \<and>
            \<not> core_contains
                (m_unsat_core (pctxs (run_round ops (scheds ! k) sk) ! unat (finished_id (run_round ops (scheds ! k) sk))))
                (worker_cube ops sk (unat (finished_id (run_round ops (scheds ! k) sk)))) \<and>
            ((\<forall>cx as cx'. check ops cx as = (cx', Inr l_false) \<longrightarrow> set (m_unsat_core cx') \<subseteq> set as) \<longrightarrow>
               set (m_unsat_core (pctxs (run_round ops (scheds ! k) sk) ! unat (finished_id (run_round ops (scheds ! k) sk))))
                 \<subseteq> set (map (translate ops (Worker (unat (finished_id (run_round ops (scheds ! k) sk)))) Primary) asms))"
    if k: "k < length scheds" and rs: "round_start ops scheds (init_state ops c asms) k = Some sk"
      and d: "distinct (scheds ! k)" and b: "\<forall>j\<in>set (scheds ! k). j < num_threads sk"
      and f: "finished_id (run_round ops (scheds ! k) sk) \<noteq> UINT_MAX"
      and r: "result (run_round ops (scheds ! k) sk) = l_false"
    for k sk
  proof -
    let ?s0 = "init_state ops c asms"
    let ?s' = "run_round ops (scheds ! k) sk"
    let ?w = "unat (finished_id ?s')"
    have un0: "finished_id ?s0 = UINT_MAX" by (simp add: init_state_def Let_def)
    from round_start_unclaimed[OF rs un0] have un: "finished_id sk = UINT_MAX" .
    from round_start_relay_inv[OF rs init_state_relay_inv] have inv: "relay_inv sk" .
    from round_start_frame[OF rs] num_threads_small[of ops c asms]
    have small: "num_threads sk \<le> unat UINT_MAX" and cx: "ctx sk = ctx ?s0"
      and pa: "pasms sk = pasms ?s0" and nt: "num_threads sk = unat (m_threads c)" by simp_all
    from winner_check[OF inv un d b small f] r
    have wl: "?w < num_threads sk"
      and chk: "worker_check ops sk ?w = (pctxs ?s' ! ?w, Inr (l_false, worker_cube ops sk ?w))"
      and core: "\<not> core_contains (m_unsat_core (pctxs ?s' ! ?w)) (worker_cube ops sk ?w)"
      by simp_all
    from wl nt pa have "pasms sk ! ?w = map (translate ops (Worker ?w) Primary) asms"
      by (simp add: init_state_pasms)
    with worker_check_core[OF chk core]
    have sub: "(\<forall>cx as cx'. check ops cx as = (cx', Inr l_false) \<longrightarrow> set (m_unsat_core cx') \<subseteq> set as) \<longrightarrow>
               set (m_unsat_core (pctxs ?s' ! ?w)) \<subseteq> set (map (translate ops (Worker ?w) Primary) asms)"
      by simp
    from run_round_race_inv[of sk ops "scheds ! k"] un f have dn: "done_flag ?s'" by simp
    have "round_loop ops scheds ?s0 = Some ?s'"
      unfolding round_loop_iff using k rs dn by blast
    then have p: "parallel_operator ops scheds c asms = Some (fst (finish ops ?s'), snd (finish ops ?s'))"
      by (simp add: parallel_operator_def)
    from cx have "m_unsat_core (ctx ?s') = m_unsat_core c" by simp
    with p finish_unsat[OF f r, of ops] core sub show ?thesis by simp
  qed
  from cube_refuted_step[of ops s i] call show ?thesis unfolding Let_def by blast
qed

text \<open>The theorem at round 1 of the two workers with the cube \<open>Atom 9\<close>.\<close>

theorem cube_core_never_returned_witness:
  "worker_thread (demo_ops_cube check_cube) 0 cube_s1 =
     set_pctx 0
       (assert_expr (Not (And [Atom 5, Atom 9])) (fst (worker_check (demo_ops_cube check_cube) cube_s1 0)))
       cube_s1 \<and>
   worker_cube (demo_ops_cube check_cube) cube_s1 1 = Some (Atom 9) \<and>
   (\<exists>c'. parallel_operator (demo_ops_cube check_cube) [[0, 1], [0, 1]] demo_ctx [Atom 5] =
           Some (c', Inr l_false) \<and>
         m_unsat_core c' = [Atom 5]) \<and>
   set (m_unsat_core (pctxs (run_round (demo_ops_cube check_cube) [0, 1] cube_s1) ! 1)) \<subseteq> set [Atom 5]"
proof -
  let ?ops = "demo_ops_cube check_cube"
  let ?scheds = "[[0, 1], [0, 1::nat]]"
  let ?s0 = "init_state ?ops demo_ctx [Atom 5]"
  let ?s' = "run_round ?ops (?scheds ! 1) cube_s1"
  note inst = cube_core_never_returned [of ?ops cube_s1 0 ?scheds demo_ctx "[Atom 5]"]
  obtain pctx where chk: "worker_check ?ops cube_s1 0 = (pctx, Inr (l_false, Some (Atom 9)))"
    and core0: "m_unsat_core pctx = [Atom 5, Atom 9]"
    by (simp add: cube_simps demo_simps relay_simps)
  then have "core_contains (m_unsat_core pctx) (Some (Atom 9))" by (simp add: core_contains_def)
  with inst chk have "worker_thread ?ops 0 cube_s1 =
        set_pctx 0 (assert_expr (mk_not (mk_and (m_unsat_core pctx))) pctx) cube_s1" by blast
  with chk core0 have 1: "worker_thread ?ops 0 cube_s1 =
     set_pctx 0 (assert_expr (Not (And [Atom 5, Atom 9])) (fst (worker_check ?ops cube_s1 0))) cube_s1"
    by (simp add: mk_not_def mk_and_def)
  have 2: "worker_cube ?ops cube_s1 1 = Some (Atom 9)"
    by (simp add: cube_simps demo_simps relay_simps)
  have k: "(1::nat) < length ?scheds" by simp
  have rs: "round_start ?ops ?scheds ?s0 1 = Some cube_s1"
    by (simp add: cube_simps demo_simps relay_simps)
  have d: "distinct (?scheds ! 1)" by simp
  have b: "\<forall>j\<in>set (?scheds ! 1). j < num_threads cube_s1"
    by (simp add: cube_simps demo_simps)
  have f: "finished_id ?s' = 1"
    by (simp add: cube_simps demo_simps relay_simps mk_not_def mk_and_def)
  then have f': "finished_id ?s' \<noteq> UINT_MAX" by (simp add: UINT_MAX_def)
  have r: "result ?s' = l_false"
    by (simp add: cube_simps demo_simps relay_simps mk_not_def mk_and_def)
  have contract: "\<forall>cx as cx'. check ?ops cx as = (cx', Inr l_false) \<longrightarrow> set (m_unsat_core cx') \<subseteq> set as"
    by (auto simp: check_cube_def demo_ops_cube_def demo_ops_def split: if_splits dest: in_set_butlastD)
  from inst k rs d b f' r
  have "let s' = ?s'; w = unat (finished_id s') in
       \<exists>c'. parallel_operator ?ops ?scheds demo_ctx [Atom 5] = Some (c', Inr l_false) \<and>
            m_unsat_core c' =
              m_unsat_core demo_ctx @ map (translate ?ops (Worker w) Primary) (m_unsat_core (pctxs s' ! w)) \<and>
            \<not> core_contains (m_unsat_core (pctxs s' ! w)) (worker_cube ?ops cube_s1 w) \<and>
            ((\<forall>cx as cx'. check ?ops cx as = (cx', Inr l_false) \<longrightarrow> set (m_unsat_core cx') \<subseteq> set as) \<longrightarrow>
               set (m_unsat_core (pctxs s' ! w)) \<subseteq> set (map (translate ?ops (Worker w) Primary) [Atom 5]))"
    by blast
  with contract obtain c' where p: "parallel_operator ?ops ?scheds demo_ctx [Atom 5] = Some (c', Inr l_false)"
    and c': "m_unsat_core c' =
              m_unsat_core demo_ctx @ map (translate ?ops (Worker 1) Primary) (m_unsat_core (pctxs ?s' ! 1))"
    and sub: "set (m_unsat_core (pctxs ?s' ! 1)) \<subseteq> set (map (translate ?ops (Worker 1) Primary) [Atom 5])"
    unfolding Let_def f by auto
  from sub have 4: "set (m_unsat_core (pctxs (run_round ?ops [0, 1] cube_s1) ! 1)) \<subseteq> set [Atom 5]"
    by (simp add: demo_ops_cube_def demo_ops_def)
  have "m_unsat_core (pctxs ?s' ! 1) = [Atom 5]"
    by (simp add: cube_simps demo_simps relay_simps mk_not_def mk_and_def)
  with p c' have 3: "\<exists>c'. parallel_operator ?ops ?scheds demo_ctx [Atom 5] = Some (c', Inr l_false) \<and>
         m_unsat_core c' = [Atom 5]"
    by (simp add: demo_ctx_def demo_ops_cube_def demo_ops_def)
  from 1 2 3 4 show ?thesis by blast
qed

section \<open>C6: the effort budget\<close>





section \<open>C7: the trail as a set\<close>

text \<open>
  C7. The relay keeps the trail free of repetitions and its elements equal to those
  of \<^verbatim>\<open>unit_set\<close>; this holds at the start of every round of every call. And when the
  relay runs twice in succession and every worker's log is the same for the second
  run as for the first, the second run leaves the length of the trail unchanged.
\<close>

theorem trail_is_a_set:
  "(trail_inv s \<longrightarrow> trail_inv (collect_units ops s)) \<and>
   (\<forall>k sk. round_start ops scheds (init_state ops c asms) k = Some sk \<longrightarrow>
      distinct (unit_trail sk) \<and> set (unit_trail sk) = unit_set sk) \<and>
   (relay_inv s \<and> (\<forall>i<num_threads s. worker_log ops (collect_units ops s) i = worker_log ops s i) \<longrightarrow>
      length (unit_trail (collect_units ops (collect_units ops s))) =
      length (unit_trail (collect_units ops s)))"
  using collect_units_trail_inv trail_inv_reached relay_idempotent by metis

text \<open>The theorem at the end of round 0 of the two workers above.\<close>

theorem trail_is_a_set_witness:
  "distinct (unit_trail units_s1) \<and> unit_trail units_s1 = [Atom 0, Atom 1, Not (Atom 3)] \<and>
   length (unit_trail (collect_units (demo_ops check_units) (collect_units (demo_ops check_units) units_e0))) = 3"
proof -
  let ?ops = "demo_ops check_units"
  note inst = trail_is_a_set [of units_e0 ?ops "[[0, 1], [1, 0]]" demo_ctx "[]"]
  from inst units_round_1 have d: "distinct (unit_trail units_s1)"
    unfolding units_s0_def by blast
  have inv: "relay_inv units_e0"
    unfolding units_e0_def units_s0_def by (intro run_round_relay_inv init_state_relay_inv)
  have n: "num_threads units_e0 = 2"
    by (simp add: units_simps demo_simps)
  have "worker_log ?ops (collect_units ?ops units_e0) 0 = worker_log ?ops units_e0 0"
    "worker_log ?ops (collect_units ?ops units_e0) 1 = worker_log ?ops units_e0 1"
    by (simp_all add: units_simps demo_simps relay_simps)
  with n have same: "\<forall>i<num_threads units_e0. worker_log ?ops (collect_units ?ops units_e0) i = worker_log ?ops units_e0 i"
    by (auto dest: less_2_cases)
  from inst inv same have "length (unit_trail (collect_units ?ops (collect_units ?ops units_e0))) =
      length (unit_trail (collect_units ?ops units_e0))" by blast
  also have "\<dots> = 3" using units_s1_trail by (simp add: units_s1_def)
  finally show ?thesis using d units_s1_trail by simp
qed

section \<open>C8: cubes and the assumptions\<close>



section \<open>C9: statistics\<close>

text \<open>
  C9. When the round loop exits, the statistics of every worker context are folded
  into the primary context's \<^verbatim>\<open>m_aux_stats\<close>, one \<^verbatim>\<open>collect_statistics\<close> per worker in
  the order of \<^verbatim>\<open>pctxs\<close>, whatever the outcome \<open>out\<close> of the call is: a sat result, an
  unsat result, an unknown result or the captured exception. The loop in lines 175 to
  177 stands before the \<^verbatim>\<open>throw\<close>.
\<close>

theorem statistics_collected_on_every_exit:
  assumes "round_loop ops scheds (init_state ops c asms) = Some s"
  shows "\<exists>c' out. parallel_operator ops scheds c asms = Some (c', out) \<and>
           m_aux_stats c' =
             foldl (\<lambda>st w. collect_statistics ops w st) (m_aux_stats c) (pctxs s)"
proof -
  have "parallel_operator ops scheds c asms = Some (fst (finish ops s), snd (finish ops s))"
    using assms by (simp add: parallel_operator_def)
  moreover have "ctx s = ctx (init_state ops c asms)"
    using round_loop_frame(1)[OF assms] .
  ultimately have "parallel_operator ops scheds c asms = Some (fst (finish ops s), snd (finish ops s)) \<and>
      m_aux_stats (fst (finish ops s)) =
        foldl (\<lambda>st w. collect_statistics ops w st) (m_aux_stats c) (pctxs s)"
    by (simp add: finish_stats)
  then show ?thesis by blast
qed

text \<open>The two workers of this call both fail in round 0.\<close>

lemma demo_faulty_loop:
  "round_loop (demo_ops check_faulty) [[0, 1]] (init_state (demo_ops check_faulty) demo_ctx []) =
     Some (run_round (demo_ops check_faulty) [0, 1] (init_state (demo_ops check_faulty) demo_ctx []))"
  by (simp add: check_faulty_def demo_simps)

text \<open>The theorem at a call that ends by throwing the captured exception.\<close>

theorem statistics_collected_on_every_exit_witness:
  "\<exists>c'. parallel_operator (demo_ops check_faulty) [[0, 1]] demo_ctx [] =
          Some (c', Inl (z3_exception ''late'')) \<and>
        m_aux_stats c' = [(''conflicts'', 0), (''conflicts'', 0)]"
proof -
  let ?ops = "demo_ops check_faulty"
  let ?s = "run_round ?ops [0, 1] (init_state ?ops demo_ctx [])"
  from statistics_collected_on_every_exit [OF demo_faulty_loop]
  obtain c' out where p: "parallel_operator ?ops [[0, 1]] demo_ctx [] = Some (c', out)"
    and st: "m_aux_stats c' = foldl (\<lambda>st w. collect_statistics ?ops w st) (m_aux_stats demo_ctx) (pctxs ?s)"
    by blast
  have "snd (finish ?ops ?s) = Inl (z3_exception ''late'')"
    unfolding finish_outcome by (simp add: check_faulty_def demo_simps)
  moreover from p have "out = snd (finish ?ops ?s)"
    unfolding parallel_operator_def demo_faulty_loop by simp
  ultimately have o: "out = Inl (z3_exception ''late'')" by simp
  have "foldl (\<lambda>st w. collect_statistics ?ops w st) (m_aux_stats demo_ctx) (pctxs ?s) =
      [(''conflicts'', 0), (''conflicts'', 0)]"
    by (simp add: check_faulty_def demo_simps)
  with p st o show ?thesis by simp
qed

section \<open>C10: a winner without a model\<close>

text \<open>
  C10. If the winner's result is \<^verbatim>\<open>l_true\<close> and \<^verbatim>\<open>get_model\<close> on its context yields a
  null model, the call returns \<^verbatim>\<open>l_true\<close> and the primary context's \<^verbatim>\<open>m_model\<close> is
  what it was before the call.
\<close>

theorem sat_without_model:
  assumes "round_loop ops scheds (init_state ops c asms) = Some s"
    and "finished_id s \<noteq> UINT_MAX"
    and "result s = l_true"
    and "get_model ops (pctxs s ! unat (finished_id s)) = None"
  shows "\<exists>c'. parallel_operator ops scheds c asms = Some (c', Inr l_true) \<and> m_model c' = m_model c"
proof -
  have "parallel_operator ops scheds c asms = Some (finish ops s)"
    using assms(1) by (simp add: parallel_operator_def)
  moreover have "finish ops s =
      ((collect_all_statistics ops (pctxs s) (ctx s))\<lparr>m_threads := of_nat (num_threads s)\<rparr>, Inr l_true)"
    using assms(2-4) by (simp add: finish_def Let_def)
  moreover have "ctx s = ctx (init_state ops c asms)"
    using round_loop_frame(1)[OF assms(1)] .
  ultimately show ?thesis by simp
qed

text \<open>
  The theorem at a call whose primary context holds a model from before and whose
  workers answer sat without one.
\<close>

theorem sat_without_model_witness:
  "\<exists>c'. parallel_operator (demo_ops check_sat_no_model) [[1, 0]] demo_ctx_with_model [] =
          Some (c', Inr l_true) \<and>
        m_model c' = Some (Model [(0, True)])"
proof -
  let ?ops = "demo_ops check_sat_no_model"
  let ?s = "run_round ?ops [1, 0] (init_state ?ops demo_ctx_with_model [])"
  have l: "round_loop ?ops [[1, 0]] (init_state ?ops demo_ctx_with_model []) = Some ?s"
    by (simp add: check_sat_no_model_def demo_ctx_with_model_def demo_simps)
  have f: "finished_id ?s = 1"
    by (simp add: check_sat_no_model_def demo_ctx_with_model_def demo_simps)
  have a: "finished_id ?s \<noteq> UINT_MAX" unfolding f by (simp add: UINT_MAX_def)
  have b: "result ?s = l_true"
    by (simp add: check_sat_no_model_def demo_ctx_with_model_def demo_simps)
  have c: "get_model ?ops (pctxs ?s ! unat (finished_id ?s)) = None"
    unfolding f by (simp add: check_sat_no_model_def demo_ctx_with_model_def demo_simps)
  from sat_without_model [OF l a b c] show ?thesis
    by (simp add: demo_ctx_with_model_def demo_ctx_def)
qed

end
